theory Spec2Isabelle
  imports Main "HOL-Library.Word"
begin

unbundle bit_operations_syntax

section \<open>JavaScript values and library functions the codec calls\<close>

text \<open>
  The codec of \<^verbatim>\<open>src/index.ts\<close> is four pure functions. What they throw is a value
  here: \<open>Error\<close> with its message for the two \<^verbatim>\<open>throw new Error(...)\<close>, \<open>TypeError\<close> for
  \<^verbatim>\<open>reduce\<close> on an empty array without an initial value, \<open>RangeError\<close> for
  \<^verbatim>\<open>new Array(n)\<close> with a negative \<open>n\<close> and for \<^verbatim>\<open>BigInt(NaN)\<close>.
\<close>

datatype error = Error string | TypeError | RangeError

text \<open>
  A JavaScript \<^verbatim>\<open>number\<close>, as far as the IPv4 codec meets it: an integer or NaN
  (fractions and infinities do not arise from octets). A \<^verbatim>\<open>bigint\<close> is an \<open>int\<close>.
\<close>

datatype number = NaN | Num int

subsection \<open>Strings\<close>

text \<open>\<^verbatim>\<open>str.split(sep)\<close> for a separator of one character: never an empty array.\<close>

fun split :: "char \<Rightarrow> string \<Rightarrow> string list" where
  "split sep [] = [[]]"
| "split sep (c # cs) =
     (if c = sep then [] # split sep cs
      else (case split sep cs of [] \<Rightarrow> [[c]] | x # xs \<Rightarrow> (c # x) # xs))"

text \<open>\<^verbatim>\<open>arr.join(sep)\<close> on an array of strings.\<close>

fun join :: "string \<Rightarrow> string list \<Rightarrow> string" where
  "join sep [] = []"
| "join sep [x] = x"
| "join sep (x # y # ys) = x @ sep @ join sep (y # ys)"

text \<open>
  Digits as \<^verbatim>\<open>parseInt\<close>, \<^verbatim>\<open>Number\<close> and \<^verbatim>\<open>toString(radix)\<close> use them: \<^verbatim>\<open>0-9\<close>, then the
  letters from ten on, read in either case and written in lower case.
\<close>

definition digit_value :: "char \<Rightarrow> nat option" where
  "digit_value c =
     (let n = (of_char c :: nat) in
      if 48 \<le> n \<and> n \<le> 57 then Some (n - 48)
      else if 97 \<le> n \<and> n \<le> 122 then Some (n - 87)
      else if 65 \<le> n \<and> n \<le> 90 then Some (n - 55)
      else None)"

definition is_digit :: "nat \<Rightarrow> char \<Rightarrow> bool" where
  "is_digit radix c = (case digit_value c of None \<Rightarrow> False | Some d \<Rightarrow> d < radix)"

definition digit_char :: "nat \<Rightarrow> char" where
  "digit_char d = ''0123456789abcdefghijklmnopqrstuvwxyz'' ! d"

text \<open>The value of a text of digits in a radix, most significant digit first.\<close>

definition digits_value :: "nat \<Rightarrow> string \<Rightarrow> nat" where
  "digits_value radix s =
     foldl (\<lambda>a c. a * radix + (case digit_value c of None \<Rightarrow> 0 | Some d \<Rightarrow> d)) 0 s"

text \<open>
  \<^verbatim>\<open>n.toString(radix)\<close> for an integer \<open>n\<close>: no leading zeros, a minus sign before a
  negative value. The codec calls it with radix 10 (inside \<^verbatim>\<open>join\<close>) and 16.
\<close>

fun digits_of :: "nat \<Rightarrow> nat \<Rightarrow> string" where
  "digits_of radix n =
     (if radix < 2 \<or> n < radix then [digit_char n]
      else digits_of radix (n div radix) @ [digit_char (n mod radix)])"

definition toString :: "nat \<Rightarrow> int \<Rightarrow> string" where
  "toString radix n =
     (if n < 0 then CHR ''-'' # digits_of radix (nat (- n)) else digits_of radix (nat n))"

definition number_toString :: "number \<Rightarrow> string" where
  "number_toString x = (case x of NaN \<Rightarrow> ''NaN'' | Num n \<Rightarrow> toString 10 n)"

text \<open>
  \<^verbatim>\<open>Number(text)\<close> on the texts that matter here: the empty text is 0, a text of decimal
  digits is its value, and any other text is taken as NaN. (JavaScript also reads white
  space, signs, fractions, exponents and radix prefixes; no piece of a text that passed
  \<^verbatim>\<open>isIPv4\<close> holds one.)
\<close>

definition Number :: "string \<Rightarrow> number" where
  "Number s = (if list_all (is_digit 10) s then Num (int (digits_value 10 s)) else NaN)"

text \<open>
  \<^verbatim>\<open>parseInt(text, 16)\<close>: the value of the longest prefix of hexadecimal digits, NaN when
  that prefix is empty. (White space, a sign and a \<^verbatim>\<open>0x\<close> prefix, which \<^verbatim>\<open>parseInt\<close> also
  skips, do not occur in a section of a text that passed \<^verbatim>\<open>isIPv6\<close>.)
\<close>

definition parseInt :: "string \<Rightarrow> nat \<Rightarrow> number" where
  "parseInt s radix =
     (let ds = takeWhile (is_digit radix) s
      in if ds = [] then NaN else Num (int (digits_value radix ds)))"

text \<open>\<^verbatim>\<open>BigInt(x)\<close> of a number: a RangeError on NaN.\<close>

definition BigInt :: "number \<Rightarrow> error + int" where
  "BigInt x = (case x of NaN \<Rightarrow> Inl RangeError | Num n \<Rightarrow> Inr n)"

subsection \<open>32-bit operators on numbers\<close>

text \<open>
  \<^verbatim>\<open><<\<close>, \<^verbatim>\<open>>>\<close>, \<^verbatim>\<open>|\<close> and \<^verbatim>\<open>&\<close> turn their operands into 32-bit two's complement
  integers (\<^verbatim>\<open>ToInt32\<close>: modulo \<open>2 ^ 32\<close>, NaN as 0), work on those bits, and give a
  signed 32-bit result. The shift count is taken modulo 32; \<^verbatim>\<open>>>\<close> propagates the sign.
\<close>

definition ToInt32 :: "number \<Rightarrow> 32 word" where
  "ToInt32 x = (case x of NaN \<Rightarrow> 0 | Num n \<Rightarrow> word_of_int n)"

definition js_shl :: "number \<Rightarrow> nat \<Rightarrow> number" where
  "js_shl a n = Num (sint (push_bit (n mod 32) (ToInt32 a)))"

definition js_sar :: "number \<Rightarrow> nat \<Rightarrow> number" where
  "js_sar a n = Num (sint (signed_drop_bit (n mod 32) (ToInt32 a)))"

definition js_or :: "number \<Rightarrow> number \<Rightarrow> number" where
  "js_or a b = Num (sint (ToInt32 a OR ToInt32 b))"

definition js_and :: "number \<Rightarrow> number \<Rightarrow> number" where
  "js_and a b = Num (sint (ToInt32 a AND ToInt32 b))"

subsection \<open>Arrays\<close>

text \<open>
  \<^verbatim>\<open>arr.reduce(f)\<close> without an initial value starts from the first element and throws a
  TypeError on an empty array; \<^verbatim>\<open>arr.reduce(f, init)\<close> starts from \<open>init\<close>, and an
  exception thrown by the callback ends it.
\<close>

fun reduce :: "('a \<Rightarrow> 'a \<Rightarrow> 'a) \<Rightarrow> 'a list \<Rightarrow> error + 'a" where
  "reduce f [] = Inl TypeError"
| "reduce f (x # xs) = Inr (foldl f x xs)"

fun reduce_from :: "('b \<Rightarrow> 'a \<Rightarrow> error + 'b) \<Rightarrow> 'b \<Rightarrow> 'a list \<Rightarrow> error + 'b" where
  "reduce_from f acc [] = Inr acc"
| "reduce_from f acc (x # xs) =
     (case f acc x of Inl e \<Rightarrow> Inl e | Inr acc' \<Rightarrow> reduce_from f acc' xs)"

text \<open>\<^verbatim>\<open>arr.indexOf(x)\<close>: the first index holding \<open>x\<close>; JavaScript's \<open>-1\<close> is \<open>None\<close>.\<close>

fun indexOf :: "'a list \<Rightarrow> 'a \<Rightarrow> nat option" where
  "indexOf [] y = None"
| "indexOf (x # xs) y =
     (if x = y then Some 0 else (case indexOf xs y of None \<Rightarrow> None | Some k \<Rightarrow> Some (Suc k)))"

text \<open>
  \<^verbatim>\<open>arr.splice(start, 1, ...items)\<close> for a \<open>start\<close> within the array: the element at
  \<open>start\<close> gives way to \<open>items\<close>.
\<close>

definition splice1 :: "'a list \<Rightarrow> nat \<Rightarrow> 'a list \<Rightarrow> 'a list" where
  "splice1 xs start items = take start xs @ items @ drop (Suc start) xs"

section \<open>The validity predicates of Node's \<^verbatim>\<open>net\<close> module\<close>

text \<open>
  Modelled from the spec: \<^verbatim>\<open>isIPv4\<close> is imported from Node's \<^verbatim>\<open>net\<close> module and is not
  part of the repository. The spec describes what it accepts as "four dot-separated
  decimal octets, each 0--255, no extraneous characters", and leaves open whether an octet
  may carry leading zeros. The predicate below lets them pass and \<open>canonical_IPv4\<close>
  singles out the texts without them, so that what is proved of every accepted text holds
  under either reading.
\<close>

definition octet :: "string \<Rightarrow> bool" where
  "octet p = (p \<noteq> [] \<and> list_all (is_digit 10) p \<and> digits_value 10 p \<le> 255)"

definition isIPv4 :: "string \<Rightarrow> bool" where
  "isIPv4 str = (let ps = split CHR ''.'' str in length ps = 4 \<and> list_all octet ps)"

definition canonical_octet :: "string \<Rightarrow> bool" where
  "canonical_octet p = (p = ''0'' \<or> take 1 p \<noteq> ''0'')"

definition canonical_IPv4 :: "string \<Rightarrow> bool" where
  "canonical_IPv4 str = list_all canonical_octet (split CHR ''.'' str)"

text \<open>
  Modelled from the spec: \<^verbatim>\<open>isIPv6\<close> is imported from Node's \<^verbatim>\<open>net\<close> module and is not
  part of the repository. The spec describes what it accepts as "8 colon-separated hextets,
  or fewer with one \<^verbatim>\<open>::\<close> run standing in for one or more all-zero hextets; hextets are
  1--4 hex digits", and excludes zone identifiers and the embedded dotted-quad form.
\<close>

definition hextet :: "string \<Rightarrow> bool" where
  "hextet h = (1 \<le> length h \<and> length h \<le> 4 \<and> list_all (is_digit 16) h)"

text \<open>The text before and the text after the first \<^verbatim>\<open>::\<close>, if there is one.\<close>

fun find_abbreviation :: "string \<Rightarrow> (string \<times> string) option" where
  "find_abbreviation [] = None"
| "find_abbreviation [c] = None"
| "find_abbreviation (c # d # t) =
     (if c = CHR '':'' \<and> d = CHR '':'' then Some ([], t)
      else (case find_abbreviation (d # t) of
              None \<Rightarrow> None
            | Some (a, b) \<Rightarrow> Some (c # a, b)))"

definition hextets :: "string \<Rightarrow> string list" where
  "hextets t = (if t = [] then [] else split CHR '':'' t)"

definition isIPv6 :: "string \<Rightarrow> bool" where
  "isIPv6 str =
     (case find_abbreviation str of
        None \<Rightarrow> (let hs = split CHR '':'' str in length hs = 8 \<and> list_all hextet hs)
      | Some (a, b) \<Rightarrow> (let hs = hextets a @ hextets b in length hs \<le> 7 \<and> list_all hextet hs))"

section \<open>The IPv4 codec\<close>

text \<open>
  \<^verbatim>\<open>fromIPv4\<close>: the guard, then
  \<^verbatim>\<open>str.split(".").map(Number).reduce((a, b) => (a << 0x08) | b)\<close>.
\<close>

definition fromIPv4 :: "string \<Rightarrow> error + number" where
  "fromIPv4 str =
     (if \<not> isIPv4 str then Inl (Error ''str should be a valid IPv4 address.'')
      else reduce (\<lambda>a b. js_or (js_shl a 8) b) (map Number (split CHR ''.'' str)))"

text \<open>
  \<^verbatim>\<open>toIPv4\<close>:
  \<^verbatim>\<open>[0x18, 0x10, 0x08, 0x00].map((a) => (num >> a) & 0xFF).join(".")\<close>;
  \<^verbatim>\<open>join\<close> writes each number in decimal.
\<close>

definition toIPv4 :: "number \<Rightarrow> string" where
  "toIPv4 num =
     join ''.'' (map number_toString
       (map (\<lambda>a. js_and (js_sar num a) (Num 255)) [24, 16, 8, 0]))"

section \<open>The IPv6 codec\<close>

text \<open>
  \<^verbatim>\<open>fromIPv6\<close>: the guard; the split on \<^verbatim>\<open>:\<close>; where \<^verbatim>\<open>sections.indexOf("")\<close> finds an
  empty section, \<^verbatim>\<open>numZeros = 8 - sections.length + 1\<close> and
  \<^verbatim>\<open>sections.splice(emptySectionIndex, 1, ...new Array(numZeros).fill("0"))\<close>; then the
  fold \<^verbatim>\<open>(acc << 16n) + BigInt(parseInt(section || "0", 16))\<close> from \<^verbatim>\<open>0n\<close>.
\<close>

definition expand_sections :: "string list \<Rightarrow> error + string list" where
  "expand_sections sections =
     (case indexOf sections [] of
        None \<Rightarrow> Inr sections
      | Some emptySectionIndex \<Rightarrow>
          (let numZeros = 8 - int (length sections) + 1
           in if numZeros < 0 then Inl RangeError
              else Inr (splice1 sections emptySectionIndex (replicate (nat numZeros) ''0''))))"

definition add_section :: "int \<Rightarrow> string \<Rightarrow> error + int" where
  "add_section acc section =
     (case BigInt (parseInt (if section = [] then ''0'' else section) 16) of
        Inl e \<Rightarrow> Inl e
      | Inr b \<Rightarrow> Inr (push_bit 16 acc + b))"

definition fromIPv6 :: "string \<Rightarrow> error + int" where
  "fromIPv6 str =
     (if \<not> isIPv6 str then Inl (Error ''str should be a valid IPv6 address.'')
      else (case expand_sections (split CHR '':'' str) of
              Inl e \<Rightarrow> Inl e
            | Inr sections \<Rightarrow> reduce_from add_section 0 sections))"

text \<open>
  The first replacement of \<^verbatim>\<open>toIPv6\<close>, \<^verbatim>\<open>.replace(/(^|:)0(:0)*(:|$)/, "::")\<close>: the leftmost
  match gives way to \<^verbatim>\<open>::\<close>. \<open>zero_run_rest\<close> is \<^verbatim>\<open>(:0)*(:|$)\<close> at the head of a text (the
  star takes what it can and gives back when the rest fails), \<open>zero_run_here\<close> the whole
  expression at the head of a text, where \<^verbatim>\<open>^\<close> holds at the start of the string only. Both
  return what follows the match.
\<close>

fun zero_run_rest :: "string \<Rightarrow> string option" where
  "zero_run_rest s =
     (case (case s of
              c # d # t \<Rightarrow> if c = CHR '':'' \<and> d = CHR ''0'' then zero_run_rest t else None
            | _ \<Rightarrow> None) of
        Some r \<Rightarrow> Some r
      | None \<Rightarrow> (case s of [] \<Rightarrow> Some [] | c # t \<Rightarrow> if c = CHR '':'' then Some t else None))"

definition zero_then :: "string \<Rightarrow> string option" where
  "zero_then s = (case s of [] \<Rightarrow> None | c # t \<Rightarrow> if c = CHR ''0'' then zero_run_rest t else None)"

definition zero_run_here :: "bool \<Rightarrow> string \<Rightarrow> string option" where
  "zero_run_here at_start s =
     (case (if at_start then zero_then s else None) of
        Some r \<Rightarrow> Some r
      | None \<Rightarrow> (case s of [] \<Rightarrow> None | c # t \<Rightarrow> if c = CHR '':'' then zero_then t else None))"

fun replace_zero_run :: "bool \<Rightarrow> string \<Rightarrow> string" where
  "replace_zero_run at_start s =
     (case zero_run_here at_start s of
        Some r \<Rightarrow> ''::'' @ r
      | None \<Rightarrow> (case s of [] \<Rightarrow> [] | c # t \<Rightarrow> c # replace_zero_run False t))"

text \<open>The second replacement, \<^verbatim>\<open>.replace(/:{3,}/, "::")\<close>: the leftmost run of three or
  more colons gives way to \<^verbatim>\<open>::\<close>.\<close>

fun replace_colons :: "string \<Rightarrow> string" where
  "replace_colons s =
     (if 3 \<le> length (takeWhile (\<lambda>c. c = CHR '':'') s)
      then ''::'' @ dropWhile (\<lambda>c. c = CHR '':'') s
      else (case s of [] \<Rightarrow> [] | c # t \<Rightarrow> c # replace_colons t))"

text \<open>
  \<^verbatim>\<open>toIPv6\<close>: the loop \<^verbatim>\<open>for (let i = 0; i < 8; i++)\<close> puts
  \<^verbatim>\<open>((num >> BigInt(i * 16)) & 0xFFFFn).toString(16)\<close> in front of \<^verbatim>\<open>sections\<close>; then the
  join and the two replacements.
\<close>

definition toIPv6 :: "int \<Rightarrow> string" where
  "toIPv6 num =
     (let sections =
            foldl (\<lambda>sections i. toString 16 (drop_bit (i * 16) num AND 0xFFFF) # sections)
              [] [0, 1, 2, 3, 4, 5, 6, 7];
          ipv6 = replace_colons (replace_zero_run True (join '':'' sections))
      in ipv6)"

section \<open>Reference values\<close>

text \<open>Four octets as one integer, the first octet in the most significant byte.\<close>

definition packed :: "int \<Rightarrow> int \<Rightarrow> int \<Rightarrow> int \<Rightarrow> int" where
  "packed a b c d = a * 2 ^ 24 + b * 2 ^ 16 + c * 2 ^ 8 + d"

text \<open>
  The text of a section as \<^verbatim>\<open>toString(16)\<close> writes it: hexadecimal digits, at least one;
  the text of a section that is not zero starts with another digit than \<^verbatim>\<open>0\<close>.
\<close>

definition section_text :: "string \<Rightarrow> bool" where
  "section_text h = (h \<noteq> [] \<and> list_all (is_digit 16) h)"

definition nonzero_text :: "string \<Rightarrow> bool" where
  "nonzero_text h = (section_text h \<and> take 1 h \<noteq> ''0'')"

text \<open>
  The eight 16-bit segments of a value, most significant first: segment \<open>i\<close> is
  \<^verbatim>\<open>(value >> (16 * (7 - i))) & 0xFFFF\<close>.
\<close>

definition segments :: "int \<Rightarrow> int list" where
  "segments num = map (\<lambda>i. drop_bit (i * 16) num AND 0xFFFF) [7, 6, 5, 4, 3, 2, 1, 0]"

text \<open>
  The value of a section as the fold of \<^verbatim>\<open>fromIPv6\<close> reads it (an empty section reads as
  zero), and the value of a list of 16-bit segments, the leftmost the most significant.
\<close>

definition section_value :: "string \<Rightarrow> int" where
  "section_value h = int (digits_value 16 h)"

definition combine :: "int list \<Rightarrow> int" where
  "combine xs = foldl (\<lambda>acc x. acc * 2 ^ 16 + x) 0 xs"

definition short_hex :: "string \<Rightarrow> bool" where
  "short_hex h = (length h \<le> 4 \<and> list_all (is_digit 16) h)"

section \<open>Facts about the library functions\<close>

subsection \<open>Splitting and joining\<close>

lemma split_not_Nil: "split sep s \<noteq> []"
  by (induction s) (auto split: list.splits)

lemma split_Cons_other:
  "c \<noteq> sep \<Longrightarrow> split sep (c # cs) = (c # hd (split sep cs)) # tl (split sep cs)"
  using split_not_Nil [of sep cs] by (cases "split sep cs") auto

lemma split_no_sep: "sep \<notin> set a \<Longrightarrow> split sep a = [a]"
  by (induction a) auto

lemma split_append_sep: "split sep (a @ sep # b) = split sep a @ split sep b"
proof (induction a)
  case Nil
  then show ?case by simp
next
  case (Cons c a)
  show ?case
  proof (cases "c = sep")
    case True
    then show ?thesis using Cons by simp
  next
    case False
    then show ?thesis
      using Cons split_not_Nil [of sep a]
      by (cases "split sep a") (auto split: list.splits)
  qed
qed

lemma split_piece_then:
  "sep \<notin> set a \<Longrightarrow> split sep (a @ sep # b) = a # split sep b"
  by (simp add: split_append_sep split_no_sep)

lemma split_parts_no_sep: "x \<in> set (split sep s) \<Longrightarrow> sep \<notin> set x"
proof (induction s arbitrary: x)
  case Nil
  then show ?case by simp
next
  case (Cons c s)
  then show ?case
    by (cases "split sep s") (auto split: if_splits)
qed

lemma join_split: "join [sep] (split sep s) = s"
proof (induction s)
  case Nil
  then show ?case by simp
next
  case (Cons c s)
  show ?case
  proof (cases "c = sep")
    case True
    then show ?thesis
      using Cons split_not_Nil [of sep s] by (cases "split sep s") auto
  next
    case False
    then show ?thesis
      using Cons split_not_Nil [of sep s]
      by (cases "split sep s"; cases "tl (split sep s)") auto
  qed
qed

lemma join_Cons: "ys \<noteq> [] \<Longrightarrow> join sep (x # ys) = x @ sep @ join sep ys"
  by (cases ys) auto

lemma split_join:
  "xs \<noteq> [] \<Longrightarrow> list_all (\<lambda>x. sep \<notin> set x) xs \<Longrightarrow> split sep (join [sep] xs) = xs"
proof (induction xs)
  case Nil
  then show ?case by simp
next
  case (Cons x xs)
  show ?case
  proof (cases "xs = []")
    case True
    then show ?thesis using Cons.prems by (simp add: split_no_sep)
  next
    case False
    then show ?thesis
      using Cons by (simp add: join_Cons split_piece_then)
  qed
qed

subsection \<open>Digits\<close>

lemma digit_table: "list_all (\<lambda>d. digit_value (digit_char d) = Some d) [0..<36]"
  by (simp add: upt_rec digit_char_def digit_value_def)

lemma digit_value_digit_char: "d < 36 \<Longrightarrow> digit_value (digit_char d) = Some d"
  using digit_table by (simp add: list_all_iff)

lemma is_digit_digit_char: "d < radix \<Longrightarrow> radix \<le> 36 \<Longrightarrow> is_digit radix (digit_char d)"
  by (simp add: is_digit_def digit_value_digit_char)

lemma decimal_table: "list_all (\<lambda>n. of_char (digit_char (n - 48)) = n) [48..<58]"
  by (simp add: upt_rec digit_char_def)

lemma digit_char_digit_value:
  assumes "is_digit 10 c" and "digit_value c = Some d"
  shows "digit_char d = c"
proof -
  let ?n = "of_char c :: nat"
  from assms have n: "48 \<le> ?n" "?n < 58" and d: "d = ?n - 48"
    by (auto simp: is_digit_def digit_value_def Let_def split: if_splits)
  from n have "?n \<in> {48..<58}" by simp
  with decimal_table have "(of_char (digit_char (?n - 48)) :: nat) = ?n"
    unfolding list_all_iff set_upt by blast
  with d show ?thesis by simp
qed

lemma is_digit_obtain:
  assumes "is_digit radix c"
  obtains d where "digit_value c = Some d" and "d < radix"
  using assms by (auto simp: is_digit_def split: option.splits)

lemma digits_value_Nil: "digits_value radix [] = 0"
  by (simp add: digits_value_def)

lemma digits_value_snoc:
  "digits_value radix (s @ [c]) =
     digits_value radix s * radix + (case digit_value c of None \<Rightarrow> 0 | Some d \<Rightarrow> d)"
  by (simp add: digits_value_def)

lemma digits_of_small: "n < radix \<Longrightarrow> digits_of radix n = [digit_char n]"
  by simp

lemma digits_of_large:
  "2 \<le> radix \<Longrightarrow> radix \<le> n \<Longrightarrow>
     digits_of radix n = digits_of radix (n div radix) @ [digit_char (n mod radix)]"
  by simp

declare digits_of.simps [simp del]

lemma digits_of_not_Nil: "digits_of radix n \<noteq> []"
  by (subst digits_of.simps) simp

lemma digits_value_digits_of:
  "2 \<le> radix \<Longrightarrow> radix \<le> 36 \<Longrightarrow> digits_value radix (digits_of radix n) = n"
proof (induction radix n rule: digits_of.induct)
  case (1 radix n)
  show ?case
  proof (cases "n < radix")
    case True
    with 1 show ?thesis
      by (simp add: digits_of_small digits_value_def digit_value_digit_char)
  next
    case False
    with 1 have "digits_value radix (digits_of radix (n div radix)) = n div radix"
      by simp
    moreover have "n mod radix < radix" using 1(2) by simp
    then have "n mod radix < 36" using 1(3) by linarith
    ultimately show ?thesis
      using False 1(2)
      by (simp add: digits_of_large digits_value_snoc digit_value_digit_char)
  qed
qed

lemma digits_of_all_digits:
  "2 \<le> radix \<Longrightarrow> radix \<le> 36 \<Longrightarrow> list_all (is_digit radix) (digits_of radix n)"
proof (induction radix n rule: digits_of.induct)
  case (1 radix n)
  show ?case
  proof (cases "n < radix")
    case True
    with 1 show ?thesis by (simp add: digits_of_small is_digit_digit_char)
  next
    case False
    with 1 show ?thesis
      by (simp add: digits_of_large is_digit_digit_char)
  qed
qed

lemma digits_of_no_separator:
  assumes "2 \<le> radix" and "radix \<le> 36" and "\<not> is_digit radix c"
  shows "c \<notin> set (digits_of radix n)"
  using digits_of_all_digits [OF assms(1,2), of n] assms(3) by (auto simp: list_all_iff)

lemma separators_no_digits: "\<not> is_digit radix CHR ''.''" "\<not> is_digit radix CHR '':''"
  by (simp_all add: is_digit_def digit_value_def)

lemma digits_of_length:
  "2 \<le> radix \<Longrightarrow> n < radix ^ k \<Longrightarrow> 0 < k \<Longrightarrow> length (digits_of radix n) \<le> k"
proof (induction radix n arbitrary: k rule: digits_of.induct)
  case (1 radix n)
  show ?case
  proof (cases "n < radix")
    case True
    with 1 show ?thesis by (simp add: digits_of_small)
  next
    case False
    obtain j where k: "k = Suc j" using 1(4) by (cases k) auto
    have "j \<noteq> 0" using False 1(3) k by (cases j) auto
    moreover have "n div radix < radix ^ j"
      using 1(3) k 1(2) by (simp add: less_mult_imp_div_less mult.commute)
    ultimately have "length (digits_of radix (n div radix)) \<le> j"
      using 1(1) [of j] False 1(2) by simp
    then show ?thesis using False 1(2) k by (simp add: digits_of_large)
  qed
qed

lemma digits_of_hd:
  "2 \<le> radix \<Longrightarrow> radix \<le> 36 \<Longrightarrow> 0 < n \<Longrightarrow> digit_value (hd (digits_of radix n)) \<noteq> Some 0"
proof (induction radix n rule: digits_of.induct)
  case (1 radix n)
  show ?case
  proof (cases "n < radix")
    case True
    with 1 show ?thesis by (simp add: digits_of_small digit_value_digit_char)
  next
    case False
    then have "0 < n div radix" using 1(2) by (simp add: div_greater_zero_iff)
    then show ?thesis
      using False 1 by (simp add: digits_of_large digits_of_not_Nil)
  qed
qed

lemma digits_of_zero: "digits_of radix 0 = ''0''"
  by (subst digits_of.simps) (auto simp: digit_char_def)

lemma digits_of_digits_value:
  assumes "p \<noteq> []" and "list_all (is_digit 10) p" and "canonical_octet p"
  shows "digits_of 10 (digits_value 10 p) = p"
  using assms
proof (induction p rule: rev_induct)
  case Nil
  then show ?case by simp
next
  case (snoc c q)
  from snoc.prems(2) have c: "is_digit 10 c" and q: "list_all (is_digit 10) q" by simp_all
  from c obtain d where d: "digit_value c = Some d" "d < 10" by (rule is_digit_obtain)
  have dc: "digit_char d = c" using c d(1) by (rule digit_char_digit_value)
  show ?case
  proof (cases "q = []")
    case True
    then show ?thesis using d dc by (simp add: digits_value_def digits_of_small)
  next
    case False
    then obtain a r where ar: "q = a # r" by (cases q) auto
    have a0: "a \<noteq> CHR ''0''" using snoc.prems(3) ar by (simp add: canonical_octet_def)
    then have cq: "canonical_octet q" using ar by (simp add: canonical_octet_def)
    have IH: "digits_of 10 (digits_value 10 q) = q" using snoc.IH False q cq by simp
    have "digits_value 10 q \<noteq> 0"
    proof
      assume "digits_value 10 q = 0"
      with IH have "q = ''0''" by (simp add: digits_of_zero)
      with ar a0 show False by simp
    qed
    then have "10 \<le> digits_value 10 q * 10 + d" by simp
    then show ?thesis
      using d IH dc by (simp add: digits_value_snoc digits_of_large)
  qed
qed

subsection \<open>32-bit operators\<close>

lemma ToInt32_Num_sint: "ToInt32 (Num (sint (w :: 32 word))) = w"
  by (simp add: ToInt32_def)

lemma pack_step:
  "js_or (js_shl (Num (sint (w :: 32 word))) 8) (Num b) = Num (sint (push_bit 8 w OR word_of_int b))"
  by (simp add: js_or_def js_shl_def ToInt32_def)

lemma pack_first:
  "js_or (js_shl (Num a) 8) (Num b) = Num (sint (push_bit 8 (word_of_int a :: 32 word) OR word_of_int b))"
  by (simp add: js_or_def js_shl_def ToInt32_def)

lemma byte_of:
  "k \<le> 24 \<Longrightarrow> js_and (js_sar (Num v) k) (Num 255) = Num (take_bit 8 (drop_bit k v))"
proof -
  assume k: "k \<le> 24"
  have m: "(255 :: 32 word) = mask 8" by (simp add: mask_eq_exp_minus_1)
  have "sint (signed_drop_bit k (word_of_int v :: 32 word) AND mask 8) = take_bit 8 (drop_bit k v)"
    using k by (auto simp: bit_eq_iff bit_simps min_def)
  then show ?thesis using k by (simp add: js_and_def js_sar_def ToInt32_def m)
qed

lemma or_byte:
  assumes "0 \<le> b" and "b < 256"
  shows "push_bit 8 (w :: 32 word) OR word_of_int b = w * 256 + word_of_int b"
proof -
  have b: "b = take_bit 8 b" using assms by (simp add: take_bit_int_eq_self)
  have "push_bit 8 w + word_of_int (take_bit 8 b) = push_bit 8 w OR word_of_int (take_bit 8 b)"
    by (rule disjunctive_add_eq_or) (auto simp: bit_eq_iff bit_simps)
  then show ?thesis using b by (simp add: push_bit_eq_mult)
qed

lemma pack_four:
  assumes "0 \<le> a" "a < 256" "0 \<le> b" "b < 256" "0 \<le> c" "c < 256" "0 \<le> d" "d < 256"
  shows "foldl (\<lambda>a b. js_or (js_shl a 8) b) (Num a) [Num b, Num c, Num d]
           = Num (sint (word_of_int (packed a b c d) :: 32 word))"
  using assms by (simp add: pack_first pack_step or_byte packed_def algebra_simps)

lemma packed_range:
  assumes "0 \<le> a" "a < 256" "0 \<le> b" "b < 256" "0 \<le> c" "c < 256" "0 \<le> d" "d < 256"
  shows "0 \<le> packed a b c d" "packed a b c d < 2 ^ 32"
  using assms by (simp_all add: packed_def)

lemma drop_byte: "0 \<le> d \<Longrightarrow> d < 256 \<Longrightarrow> drop_bit 8 (x * 256 + d) = (x :: int)"
  by (simp add: drop_bit_eq_div)

lemma take_byte: "0 \<le> d \<Longrightarrow> d < 256 \<Longrightarrow> take_bit 8 (x * 256 + d) = (d :: int)"
  by (simp add: take_bit_eq_mod)

lemma packed_nested: "packed a b c d = ((a * 256 + b) * 256 + c) * 256 + d"
  by (simp add: packed_def algebra_simps)

lemma packed_bytes:
  assumes "0 \<le> a" "a < 256" "0 \<le> b" "b < 256" "0 \<le> c" "c < 256" "0 \<le> d" "d < 256"
  shows "take_bit 8 (drop_bit 24 (packed a b c d)) = a"
    and "take_bit 8 (drop_bit 16 (packed a b c d)) = b"
    and "take_bit 8 (drop_bit 8 (packed a b c d)) = c"
    and "take_bit 8 (drop_bit 0 (packed a b c d)) = d"
proof -
  have d8: "drop_bit 8 (packed a b c d) = (a * 256 + b) * 256 + c"
    unfolding packed_nested using assms by (simp only: drop_byte)
  have d16: "drop_bit 16 (packed a b c d) = a * 256 + b"
  proof -
    have "drop_bit 16 (packed a b c d) = drop_bit 8 (drop_bit 8 (packed a b c d))"
      by (simp add: drop_bit_drop_bit)
    then show ?thesis using assms by (simp only: d8 drop_byte)
  qed
  have d24: "drop_bit 24 (packed a b c d) = a"
  proof -
    have "drop_bit 24 (packed a b c d) = drop_bit 8 (drop_bit 16 (packed a b c d))"
      by (simp add: drop_bit_drop_bit)
    also have "\<dots> = drop_bit 8 (0 * 256 + a * 256 + b)" by (simp add: d16)
    also have "\<dots> = a" using assms by (simp add: drop_bit_eq_div)
    finally show ?thesis .
  qed
  show "take_bit 8 (drop_bit 24 (packed a b c d)) = a"
    using assms by (simp add: d24 take_bit_int_eq_self)
  show "take_bit 8 (drop_bit 16 (packed a b c d)) = b"
    using assms by (simp only: d16 take_byte)
  show "take_bit 8 (drop_bit 8 (packed a b c d)) = c"
    using assms by (simp only: d8 take_byte)
  show "take_bit 8 (drop_bit 0 (packed a b c d)) = d"
    unfolding packed_nested drop_bit_0 id_apply using assms by (simp only: take_byte)
qed

lemma bit_sint_word_of_int:
  "n < 32 \<Longrightarrow> bit (sint (word_of_int v :: 32 word)) n = bit v n"
proof -
  assume n: "n < 32"
  then have "min 31 n = n" by simp
  then show ?thesis using n by (simp add: bit_simps)
qed

lemma sint_low_bits:
  assumes "k \<le> 24"
  shows "take_bit 8 (drop_bit k (sint (word_of_int v :: 32 word))) = take_bit 8 (drop_bit k v)"
proof (rule bit_eqI)
  fix n
  show "bit (take_bit 8 (drop_bit k (sint (word_of_int v :: 32 word)))) n
          = bit (take_bit 8 (drop_bit k v)) n"
  proof (cases "n < 8")
    case True
    with assms have "k + n < 32" by simp
    then have "bit (sint (word_of_int v :: 32 word)) (k + n) = bit v (k + n)"
      by (rule bit_sint_word_of_int)
    then show ?thesis by (simp add: bit_take_bit_iff bit_drop_bit_eq)
  next
    case False
    then show ?thesis by (simp add: bit_take_bit_iff)
  qed
qed

lemma sint_mod:
  assumes "0 \<le> v" and "v < 2 ^ 32"
  shows "sint (word_of_int v :: 32 word) mod 2 ^ 32 = v"
proof -
  have "sint (word_of_int v :: 32 word) mod 2 ^ 32 = take_bit 32 (sint (word_of_int v :: 32 word))"
    by (simp add: take_bit_eq_mod)
  also have "\<dots> = take_bit 32 v"
  proof (rule bit_eqI)
    fix n
    show "bit (take_bit 32 (sint (word_of_int v :: 32 word))) n = bit (take_bit 32 v) n"
      by (cases "n < 32") (simp_all add: bit_take_bit_iff bit_sint_word_of_int)
  qed
  also have "\<dots> = v" using assms by (simp add: take_bit_int_eq_self)
  finally show ?thesis .
qed

section \<open>Facts about the IPv4 codec\<close>

lemma toString_nat: "toString radix (int n) = digits_of radix n"
  by (simp add: toString_def)

lemma toString_nonneg: "0 \<le> v \<Longrightarrow> toString radix v = digits_of radix (nat v)"
  by (simp add: toString_def)

lemma Number_octet: "octet p \<Longrightarrow> Number p = Num (int (digits_value 10 p))"
  by (simp add: Number_def octet_def)

lemma isIPv4_split:
  assumes "isIPv4 str"
  obtains p1 p2 p3 p4 where "split CHR ''.'' str = [p1, p2, p3, p4]"
    and "octet p1" and "octet p2" and "octet p3" and "octet p4"
proof -
  from assms have len: "length (split CHR ''.'' str) = 4"
    and oct: "list_all octet (split CHR ''.'' str)"
    by (simp_all add: isIPv4_def Let_def)
  from len obtain p1 p2 p3 p4 where "split CHR ''.'' str = [p1, p2, p3, p4]"
    by (auto simp: length_Suc_conv numeral_eq_Suc)
  with oct that show thesis by simp
qed

lemma octet_value_range: "octet p \<Longrightarrow> 0 \<le> int (digits_value 10 p) \<and> int (digits_value 10 p) < 256"
  by (simp add: octet_def)

lemma fromIPv4_accepted:
  assumes "isIPv4 str" and "split CHR ''.'' str = [p1, p2, p3, p4]"
  shows "fromIPv4 str =
           Inr (Num (sint (word_of_int
             (packed (int (digits_value 10 p1)) (int (digits_value 10 p2))
                     (int (digits_value 10 p3)) (int (digits_value 10 p4))) :: 32 word)))"
proof -
  from assms have o: "octet p1" "octet p2" "octet p3" "octet p4"
    by (simp_all add: isIPv4_def)
  have "fromIPv4 str =
          Inr (foldl (\<lambda>a b. js_or (js_shl a 8) b) (Num (int (digits_value 10 p1)))
                 [Num (int (digits_value 10 p2)), Num (int (digits_value 10 p3)),
                  Num (int (digits_value 10 p4))])"
    using assms o by (simp add: fromIPv4_def Number_octet)
  also have "\<dots> = Inr (Num (sint (word_of_int
             (packed (int (digits_value 10 p1)) (int (digits_value 10 p2))
                     (int (digits_value 10 p3)) (int (digits_value 10 p4))) :: 32 word)))"
    using o [THEN octet_value_range] by (simp only: pack_four)
  finally show ?thesis .
qed

lemma toIPv4_bytes:
  "toIPv4 (Num v) =
     join ''.'' (map (\<lambda>k. toString 10 (take_bit 8 (drop_bit k v))) [24, 16, 8, 0])"
  by (simp add: toIPv4_def byte_of number_toString_def)

lemma toIPv4_NaN: "toIPv4 NaN = toIPv4 (Num 0)"
  by (simp add: toIPv4_def js_and_def js_sar_def ToInt32_def)

lemma toIPv4_packed:
  assumes "0 \<le> a" "a < 256" "0 \<le> b" "b < 256" "0 \<le> c" "c < 256" "0 \<le> d" "d < 256"
  shows "toIPv4 (Num (sint (word_of_int (packed a b c d) :: 32 word)))
           = join ''.'' (map (toString 10) [a, b, c, d])"
  using packed_bytes [OF assms]
  by (simp add: toIPv4_bytes sint_low_bits del: drop_bit_0)

lemma octet_toString:
  assumes "0 \<le> v" and "v < 256"
  shows "octet (toString 10 v)" and "CHR ''.'' \<notin> set (toString 10 v)"
    and "int (digits_value 10 (toString 10 v)) = v"
proof -
  have t: "toString 10 v = digits_of 10 (nat v)" using assms by (simp add: toString_nonneg)
  show "octet (toString 10 v)"
    using assms by (simp add: t octet_def digits_of_not_Nil digits_of_all_digits digits_value_digits_of)
  show "CHR ''.'' \<notin> set (toString 10 v)"
    unfolding t by (rule digits_of_no_separator) (simp_all add: separators_no_digits)
  show "int (digits_value 10 (toString 10 v)) = v"
    using assms by (simp add: t digits_value_digits_of)
qed

lemma byte_range: "0 \<le> take_bit 8 (x :: int) \<and> take_bit 8 x < 256"
  using take_bit_int_less_exp [of 8 x] by simp

lemma split_toIPv4:
  "split CHR ''.'' (toIPv4 (Num v)) =
     map (\<lambda>k. toString 10 (take_bit 8 (drop_bit k v))) [24, 16, 8, 0]"
  unfolding toIPv4_bytes
  by (rule split_join) (simp_all add: octet_toString byte_range)

lemma isIPv4_toIPv4_Num: "isIPv4 (toIPv4 (Num v))"
  by (simp add: isIPv4_def split_toIPv4 octet_toString byte_range)

lemma fromIPv4_toIPv4:
  "fromIPv4 (toIPv4 (Num v)) =
     Inr (Num (sint (word_of_int
       (packed (take_bit 8 (drop_bit 24 v)) (take_bit 8 (drop_bit 16 v))
               (take_bit 8 (drop_bit 8 v)) (take_bit 8 (drop_bit 0 v))) :: 32 word)))"
  using fromIPv4_accepted [OF isIPv4_toIPv4_Num, of v]
  by (simp add: split_toIPv4 octet_toString byte_range del: drop_bit_0)

section \<open>Facts about the IPv6 codec\<close>

subsection \<open>Texts of sections\<close>

lemma join_append:
  "xs \<noteq> [] \<Longrightarrow> ys \<noteq> [] \<Longrightarrow> join sep (xs @ ys) = join sep xs @ sep @ join sep ys"
proof (induction xs)
  case Nil
  then show ?case by simp
next
  case (Cons x xs)
  then show ?case by (cases "xs = []") (simp_all add: join_Cons)
qed

lemma hex_digit_not_colon: "is_digit radix c \<Longrightarrow> c \<noteq> CHR '':''"
  using separators_no_digits(2) by auto

lemma zero_digit_value: "digit_value CHR ''0'' = Some 0"
  by (simp add: digit_value_def)

subsection \<open>The first replacement of \<^verbatim>\<open>toIPv6\<close>\<close>

declare zero_run_rest.simps [simp del] replace_zero_run.simps [simp del]
  replace_colons.simps [simp del]

lemma zero_run_rest_Nil: "zero_run_rest [] = Some []"
  by (simp add: zero_run_rest.simps)

lemma zero_run_rest_zero:
  "zero_run_rest t = Some r \<Longrightarrow> zero_run_rest (CHR '':'' # CHR ''0'' # t) = Some r"
  by (subst zero_run_rest.simps) simp

lemma zero_run_rest_other:
  "c \<noteq> CHR ''0'' \<Longrightarrow> zero_run_rest (CHR '':'' # c # t) = Some (c # t)"
  by (subst zero_run_rest.simps) simp

lemma zero_run_rest_end: "zero_run_rest '':'' = Some []"
  by (subst zero_run_rest.simps) simp

text \<open>A run of further zero sections, then the end of the text or a section that is not
  zero: the match takes the whole run and the colon after it.\<close>

lemma zero_run_rest_run:
  assumes "post = [] \<or> (hd post \<noteq> [] \<and> hd (hd post) \<noteq> CHR ''0'')"
  shows "zero_run_rest (concat (replicate m '':0'') @ (if post = [] then [] else CHR '':'' # join '':'' post))
           = Some (join '':'' post)"
proof (induction m)
  case 0
  show ?case
  proof (cases post)
    case Nil
    then show ?thesis by (simp add: zero_run_rest_Nil)
  next
    case (Cons h hs)
    with assms obtain c t where h: "h = c # t" and c: "c \<noteq> CHR ''0''"
      by (cases h) auto
    have "join '':'' post = c # (t @ (if hs = [] then [] else '':'' @ join '':'' hs))"
      using Cons h by (cases hs) simp_all
    then show ?thesis using Cons c by (simp add: zero_run_rest_other)
  qed
next
  case (Suc m)
  then show ?case by (simp add: zero_run_rest_zero)
qed

lemma join_zero_run:
  "join '':'' (replicate (Suc m) ''0'' @ post)
     = CHR ''0'' # concat (replicate m '':0'') @ (if post = [] then [] else CHR '':'' # join '':'' post)"
proof (induction m)
  case 0
  then show ?case by (cases post) simp_all
next
  case (Suc m)
  have "join '':'' (replicate (Suc (Suc m)) ''0'' @ post)
          = ''0'' @ '':'' @ join '':'' (replicate (Suc m) ''0'' @ post)"
    by simp
  then show ?case using Suc by simp
qed

lemma replace_zero_run_match:
  "zero_run_here at_start s = Some r \<Longrightarrow> replace_zero_run at_start s = ''::'' @ r"
  by (subst replace_zero_run.simps) simp

lemma replace_zero_run_step:
  "zero_run_here at_start (c # t) = None \<Longrightarrow>
     replace_zero_run at_start (c # t) = c # replace_zero_run False t"
  by (subst replace_zero_run.simps) simp

lemma replace_zero_run_Nil: "replace_zero_run False [] = []"
  by (subst replace_zero_run.simps) (simp add: zero_run_here_def)

lemma replace_zero_run_digits:
  "list_all (is_digit 16) h \<Longrightarrow> replace_zero_run False (h @ rest) = h @ replace_zero_run False rest"
proof (induction h)
  case Nil
  then show ?case by simp
next
  case (Cons c h)
  from Cons.prems have "is_digit 16 c" by simp
  then have "c \<noteq> CHR '':''" by (rule hex_digit_not_colon)
  then have "zero_run_here False (c # h @ rest) = None" by (simp add: zero_run_here_def)
  then show ?case using Cons by (simp add: replace_zero_run_step)
qed

lemma replace_zero_run_start:
  assumes "c \<noteq> CHR ''0''"
  shows "replace_zero_run True (c # t) = replace_zero_run False (c # t)"
proof -
  have "zero_run_here True (c # t) = zero_run_here False (c # t)"
    using assms by (simp add: zero_run_here_def zero_then_def)
  then show ?thesis
    by (subst (1 2) replace_zero_run.simps) simp
qed

lemma replace_zero_run_colon:
  assumes "c \<noteq> CHR ''0''"
  shows "replace_zero_run False (CHR '':'' # c # t) = CHR '':'' # replace_zero_run False (c # t)"
proof -
  have "zero_run_here False (CHR '':'' # c # t) = None"
    using assms by (simp add: zero_run_here_def zero_then_def)
  then show ?thesis by (rule replace_zero_run_step)
qed

lemma nonzero_text_Cons:
  assumes "nonzero_text h"
  obtains c t where "h = c # t" and "c \<noteq> CHR ''0''" and "list_all (is_digit 16) h"
  using assms by (cases h) (auto simp: nonzero_text_def section_text_def)

lemma section_text_Cons:
  assumes "section_text h"
  obtains c t where "h = c # t" and "c \<noteq> CHR '':''" and "list_all (is_digit 16) h"
  using assms by (cases h) (auto simp: section_text_def hex_digit_not_colon)

lemma replace_zero_run_sections:
  assumes "pre \<noteq> []" and "list_all nonzero_text pre"
  shows "replace_zero_run False (join '':'' pre @ T) = join '':'' pre @ replace_zero_run False T"
  using assms
proof (induction pre)
  case Nil
  then show ?case by simp
next
  case (Cons h pre)
  from Cons.prems have "nonzero_text h" by simp
  then obtain c t where h: "h = c # t" "c \<noteq> CHR ''0''" "list_all (is_digit 16) h"
    by (rule nonzero_text_Cons)
  show ?case
  proof (cases "pre = []")
    case True
    then show ?thesis using h(3) by (simp add: replace_zero_run_digits)
  next
    case False
    then obtain h' pre' where pre: "pre = h' # pre'" by (cases pre) auto
    with Cons.prems have "nonzero_text h'" by simp
    then obtain c' t' where h': "h' = c' # t'" "c' \<noteq> CHR ''0''"
      by (rule nonzero_text_Cons)
    have start: "join '':'' pre @ T = c' # (t' @ (if pre' = [] then [] else '':'' @ join '':'' pre') @ T)"
      using pre h' by (cases pre') simp_all
    have "replace_zero_run False (join '':'' (h # pre) @ T)
            = replace_zero_run False (h @ CHR '':'' # (join '':'' pre @ T))"
      using False by (simp add: join_Cons)
    also have "\<dots> = h @ replace_zero_run False (CHR '':'' # (join '':'' pre @ T))"
      using h(3) by (rule replace_zero_run_digits)
    also have "\<dots> = h @ CHR '':'' # replace_zero_run False (join '':'' pre @ T)"
      unfolding start using h'(2) by (simp add: replace_zero_run_colon)
    also have "\<dots> = h @ CHR '':'' # join '':'' pre @ replace_zero_run False T"
      using Cons.IH False Cons.prems by simp
    also have "\<dots> = join '':'' (h # pre) @ replace_zero_run False T"
      using False by (simp add: join_Cons)
    finally show ?thesis .
  qed
qed

lemma replace_zero_run_from_start:
  assumes "pre \<noteq> []" and "list_all nonzero_text pre"
  shows "replace_zero_run True (join '':'' pre @ T) = replace_zero_run False (join '':'' pre @ T)"
proof -
  from assms obtain h pre' where pre: "pre = h # pre'" by (cases pre) auto
  with assms have "nonzero_text h" by simp
  then obtain c t where h: "h = c # t" "c \<noteq> CHR ''0''" by (rule nonzero_text_Cons)
  have "join '':'' pre @ T = c # (t @ (if pre' = [] then [] else '':'' @ join '':'' pre') @ T)"
    using pre h by (cases pre') simp_all
  then show ?thesis using h(2) by (simp add: replace_zero_run_start)
qed

text \<open>No zero section: the expression matches nowhere.\<close>

lemma replace_zero_run_none:
  assumes "hs \<noteq> []" and "list_all nonzero_text hs"
  shows "replace_zero_run True (join '':'' hs) = join '':'' hs"
  using replace_zero_run_from_start [OF assms, of "[]"]
    replace_zero_run_sections [OF assms, of "[]"]
  by (simp add: replace_zero_run_Nil)

text \<open>The leftmost run of zero sections gives way to \<^verbatim>\<open>::\<close>, whatever follows it.\<close>

lemma replace_zero_run_first:
  assumes "list_all nonzero_text pre" and "post = [] \<or> nonzero_text (hd post)"
  shows "replace_zero_run True (join '':'' (pre @ replicate (Suc m) ''0'' @ post))
           = join '':'' pre @ ''::'' @ join '':'' post"
proof -
  let ?Z = "concat (replicate m '':0'') @ (if post = [] then [] else CHR '':'' # join '':'' post)"
  have "post = [] \<or> (hd post \<noteq> [] \<and> hd (hd post) \<noteq> CHR ''0'')"
    using assms(2) by (auto elim: nonzero_text_Cons)
  then have rest: "zero_run_rest ?Z = Some (join '':'' post)" by (rule zero_run_rest_run)
  have run: "join '':'' (replicate (Suc m) ''0'' @ post) = CHR ''0'' # ?Z" by (rule join_zero_run)
  show ?thesis
  proof (cases "pre = []")
    case True
    have "zero_run_here True (CHR ''0'' # ?Z) = Some (join '':'' post)"
      using rest by (simp add: zero_run_here_def zero_then_def)
    then have "replace_zero_run True (CHR ''0'' # ?Z) = ''::'' @ join '':'' post"
      by (rule replace_zero_run_match)
    then show ?thesis using True run by simp
  next
    case False
    have "zero_run_here False (CHR '':'' # CHR ''0'' # ?Z) = Some (join '':'' post)"
      using rest by (simp add: zero_run_here_def zero_then_def)
    then have m: "replace_zero_run False (CHR '':'' # CHR ''0'' # ?Z) = ''::'' @ join '':'' post"
      by (rule replace_zero_run_match)
    have "join '':'' (pre @ replicate (Suc m) ''0'' @ post)
            = join '':'' pre @ (CHR '':'' # CHR ''0'' # ?Z)"
      using False run join_append [of pre "replicate (Suc m) ''0'' @ post" "'':''"] by simp
    then have "replace_zero_run True (join '':'' (pre @ replicate (Suc m) ''0'' @ post))
            = join '':'' pre @ replace_zero_run False (CHR '':'' # CHR ''0'' # ?Z)"
      using replace_zero_run_from_start [OF False assms(1)]
        replace_zero_run_sections [OF False assms(1)] by simp
    then show ?thesis using m by simp
  qed
qed

subsection \<open>The second replacement of \<^verbatim>\<open>toIPv6\<close>\<close>

lemma replace_colons_Nil: "replace_colons [] = []"
  by (subst replace_colons.simps) simp

lemma replace_colons_other:
  "c \<noteq> CHR '':'' \<Longrightarrow> replace_colons (c # t) = c # replace_colons t"
  by (subst replace_colons.simps) simp

lemma replace_colons_digits:
  "list_all (is_digit 16) h \<Longrightarrow> replace_colons (h @ rest) = h @ replace_colons rest"
proof (induction h)
  case Nil
  then show ?case by simp
next
  case (Cons c h)
  from Cons.prems have "is_digit 16 c" by simp
  then have "c \<noteq> CHR '':''" by (rule hex_digit_not_colon)
  then show ?case using Cons by (simp add: replace_colons_other)
qed

lemma replace_colons_one:
  assumes "rest = [] \<or> hd rest \<noteq> CHR '':''"
  shows "replace_colons (CHR '':'' # rest) = CHR '':'' # replace_colons rest"
  using assms by (subst replace_colons.simps) (cases rest; auto)

lemma replace_colons_two:
  assumes "rest = [] \<or> hd rest \<noteq> CHR '':''"
  shows "replace_colons (CHR '':'' # CHR '':'' # rest) = CHR '':'' # CHR '':'' # replace_colons rest"
proof -
  have "replace_colons (CHR '':'' # CHR '':'' # rest) = CHR '':'' # replace_colons (CHR '':'' # rest)"
    using assms by (subst replace_colons.simps) (cases rest; auto)
  then show ?thesis using assms by (simp add: replace_colons_one)
qed

lemma join_sections_hd:
  assumes "hs \<noteq> []" and "list_all section_text hs"
  shows "join '':'' hs @ T \<noteq> [] \<and> hd (join '':'' hs @ T) \<noteq> CHR '':''"
proof -
  from assms obtain h hs' where hs: "hs = h # hs'" by (cases hs) auto
  with assms have "section_text h" by simp
  then obtain c t where "h = c # t" "c \<noteq> CHR '':''" by (rule section_text_Cons)
  then show ?thesis using hs by (cases hs') simp_all
qed

lemma replace_colons_sections:
  assumes "hs \<noteq> []" and "list_all section_text hs"
  shows "replace_colons (join '':'' hs @ T) = join '':'' hs @ replace_colons T"
  using assms
proof (induction hs)
  case Nil
  then show ?case by simp
next
  case (Cons h hs)
  from Cons.prems have h: "list_all (is_digit 16) h" by (simp add: section_text_def)
  show ?case
  proof (cases "hs = []")
    case True
    then show ?thesis using h by (simp add: replace_colons_digits)
  next
    case False
    have hd: "hd (join '':'' hs @ T) \<noteq> CHR '':''"
      using join_sections_hd [OF False, of T] Cons.prems by simp
    have "replace_colons (join '':'' (h # hs) @ T)
            = h @ replace_colons (CHR '':'' # (join '':'' hs @ T))"
      using False h by (simp add: join_Cons replace_colons_digits)
    also have "\<dots> = h @ CHR '':'' # replace_colons (join '':'' hs @ T)"
      using hd by (simp add: replace_colons_one)
    also have "\<dots> = join '':'' (h # hs) @ replace_colons T"
      using Cons.IH False Cons.prems by (simp add: join_Cons)
    finally show ?thesis .
  qed
qed

lemma replace_colons_plain:
  assumes "hs \<noteq> []" and "list_all section_text hs"
  shows "replace_colons (join '':'' hs) = join '':'' hs"
  using replace_colons_sections [OF assms, of "[]"] by (simp add: replace_colons_Nil)

lemma replace_colons_abbreviated:
  assumes "list_all section_text pre" and "list_all section_text post"
  shows "replace_colons (join '':'' pre @ ''::'' @ join '':'' post)
           = join '':'' pre @ ''::'' @ join '':'' post"
proof -
  have tail: "replace_colons (join '':'' post) = join '':'' post"
    using assms(2) by (cases "post = []") (simp_all add: replace_colons_Nil replace_colons_plain)
  have "join '':'' post = [] \<or> hd (join '':'' post) \<noteq> CHR '':''"
    using join_sections_hd [of post "[]"] assms(2) by (cases "post = []") simp_all
  then have two: "replace_colons (''::'' @ join '':'' post) = ''::'' @ join '':'' post"
    using tail by (simp add: replace_colons_two)
  show ?thesis
  proof (cases "pre = []")
    case True
    then show ?thesis using two by simp
  next
    case False
    then show ?thesis
      using replace_colons_sections [OF False assms(1), of "''::'' @ join '':'' post"] two
      by simp
  qed
qed

subsection \<open>The text \<^verbatim>\<open>toIPv6\<close> writes\<close>

lemma toIPv6_segments:
  "toIPv6 num =
     replace_colons (replace_zero_run True (join '':'' (map (toString 16) (segments num))))"
  by (simp add: toIPv6_def segments_def)

lemma length_segments: "length (segments num) = 8"
  by (simp add: segments_def)

lemma and_FFFF: "(x :: int) AND 0xFFFF = take_bit 16 x"
proof -
  have "(0xFFFF :: int) = mask 16" by (simp add: mask_eq_exp_minus_1)
  then show ?thesis by (simp add: take_bit_eq_mask)
qed

lemma segments_range:
  assumes "x \<in> set (segments num)"
  shows "0 \<le> x" and "x < 65536"
proof -
  from assms obtain y where x: "x = take_bit 16 (y :: int)"
    by (auto simp: segments_def and_FFFF)
  show "0 \<le> x" by (simp add: x)
  show "x < 65536" using take_bit_int_less_exp [of 16 y] by (simp add: x)
qed

lemma hex_section:
  assumes "0 \<le> x" and "x < 65536"
  shows "section_text (toString 16 x)" and "hextet (toString 16 x)"
proof -
  have t: "toString 16 x = digits_of 16 (nat x)" using assms by (simp add: toString_nonneg)
  have "nat x < 16 ^ 4" using assms by simp
  then have len: "length (digits_of 16 (nat x)) \<le> 4" by (intro digits_of_length) simp_all
  have ne: "digits_of 16 (nat x) \<noteq> []" by (rule digits_of_not_Nil)
  then have "1 \<le> length (digits_of 16 (nat x))" by (cases "digits_of 16 (nat x)") simp_all
  then show "hextet (toString 16 x)"
    using len by (simp add: t hextet_def digits_of_all_digits)
  show "section_text (toString 16 x)"
    using ne by (simp add: t section_text_def digits_of_all_digits)
qed

lemma hex_zero: "toString 16 0 = ''0''"
  by (simp add: toString_def digits_of_zero)

lemma hex_nonzero:
  assumes "0 < x" and "x < 65536"
  shows "nonzero_text (toString 16 x)"
proof -
  have t: "toString 16 x = digits_of 16 (nat x)" using assms by (simp add: toString_nonneg)
  have "digit_value (hd (digits_of 16 (nat x))) \<noteq> Some 0"
    using assms by (intro digits_of_hd) simp_all
  then have "hd (digits_of 16 (nat x)) \<noteq> CHR ''0''"
    using zero_digit_value by auto
  moreover have "digits_of 16 (nat x) \<noteq> []" by (rule digits_of_not_Nil)
  ultimately have "take 1 (digits_of 16 (nat x)) \<noteq> ''0''"
    by (cases "digits_of 16 (nat x)") auto
  then show ?thesis
    using hex_section [of x] assms by (simp add: nonzero_text_def t)
qed

lemma hex_texts:
  assumes "\<And>x. x \<in> set xs \<Longrightarrow> 0 \<le> x \<and> x < 65536"
  shows "list_all section_text (map (toString 16) xs)"
    and "list_all hextet (map (toString 16) xs)"
    and "0 \<notin> set xs \<Longrightarrow> list_all nonzero_text (map (toString 16) xs)"
proof -
  show "list_all section_text (map (toString 16) xs)"
    using assms by (auto simp: list_all_iff hex_section)
  show "list_all hextet (map (toString 16) xs)"
    using assms by (auto simp: list_all_iff hex_section)
  show "list_all nonzero_text (map (toString 16) xs)" if "0 \<notin> set xs"
  proof -
    have "nonzero_text (toString 16 x)" if "x \<in> set xs" for x
    proof -
      from that \<open>0 \<notin> set xs\<close> have "x \<noteq> 0" by auto
      with assms [OF that] show ?thesis by (intro hex_nonzero) simp_all
    qed
    then show ?thesis by (simp add: list_all_iff)
  qed
qed

text \<open>Where the first run of zeros lies in a list.\<close>

lemma first_zero_run:
  fixes xs :: "int list"
  assumes "0 \<in> set xs"
  obtains pre m post where "xs = pre @ replicate (Suc m) 0 @ post" and "0 \<notin> set pre"
    and "post = [] \<or> hd post \<noteq> 0"
proof -
  let ?pre = "takeWhile (\<lambda>x. x \<noteq> 0) xs"
  let ?rest = "dropWhile (\<lambda>x. x \<noteq> 0) xs"
  let ?zs = "takeWhile (\<lambda>x. x = 0) ?rest"
  let ?post = "dropWhile (\<lambda>x. x = 0) ?rest"
  have rest: "?rest \<noteq> []" using assms by (simp add: dropWhile_eq_Nil_conv)
  then have "hd ?rest = 0" using hd_dropWhile [of "\<lambda>x. x \<noteq> 0" xs] by simp
  then have "?zs \<noteq> []" using rest by (cases ?rest) simp_all
  moreover have "?zs = replicate (length ?zs) 0"
    by (rule replicate_length_same [symmetric]) (auto dest: set_takeWhileD)
  ultimately obtain m where zs: "?zs = replicate (Suc m) 0"
    by (cases "length ?zs") auto
  have "xs = ?pre @ ?zs @ ?post" by simp
  then have "xs = ?pre @ replicate (Suc m) 0 @ ?post" using zs by simp
  moreover have "0 \<notin> set ?pre" by (auto dest: set_takeWhileD)
  moreover have "?post = [] \<or> hd ?post \<noteq> 0"
    using hd_dropWhile [of "\<lambda>x. x = 0" ?rest] by auto
  ultimately show thesis by (rule that)
qed

lemma toIPv6_first_run:
  assumes "segments num = pre @ replicate (Suc m) 0 @ post" and "0 \<notin> set pre"
    and "post = [] \<or> hd post \<noteq> 0"
  shows "toIPv6 num = join '':'' (map (toString 16) pre) @ ''::'' @ join '':'' (map (toString 16) post)"
proof -
  have range: "0 \<le> x \<and> x < 65536" if "x \<in> set pre \<or> x \<in> set post" for x
    using that segments_range [of x num] assms(1) by auto
  have pre: "list_all nonzero_text (map (toString 16) pre)"
    using assms(2) range by (intro hex_texts(3)) auto
  have post: "list_all section_text (map (toString 16) post)"
    using range by (intro hex_texts(1)) auto
  have "map (toString 16) post = [] \<or> nonzero_text (hd (map (toString 16) post))"
  proof (cases post)
    case Nil
    then show ?thesis by simp
  next
    case (Cons y ys)
    with assms(3) have "y \<noteq> 0" by simp
    moreover have "0 \<le> y \<and> y < 65536" using range [of y] Cons by simp
    ultimately have "nonzero_text (toString 16 y)" by (intro hex_nonzero) simp_all
    then show ?thesis using Cons by simp
  qed
  then have "replace_zero_run True
               (join '':'' (map (toString 16) pre @ replicate (Suc m) ''0'' @ map (toString 16) post))
             = join '':'' (map (toString 16) pre) @ ''::'' @ join '':'' (map (toString 16) post)"
    using pre by (intro replace_zero_run_first)
  moreover have "map (toString 16) (segments num)
                   = map (toString 16) pre @ replicate (Suc m) ''0'' @ map (toString 16) post"
    by (simp add: assms(1) hex_zero)
  moreover have "list_all section_text (map (toString 16) pre)"
    using pre by (simp add: list_all_iff nonzero_text_def)
  ultimately show ?thesis
    using post by (simp only: toIPv6_segments replace_colons_abbreviated)
qed

lemma toIPv6_no_zero:
  assumes "0 \<notin> set (segments num)"
  shows "toIPv6 num = join '':'' (map (toString 16) (segments num))"
proof -
  have range: "0 \<le> x \<and> x < 65536" if "x \<in> set (segments num)" for x
    using that segments_range [of x num] by auto
  have nz: "list_all nonzero_text (map (toString 16) (segments num))"
    using assms range by (intro hex_texts(3)) auto
  have ne: "map (toString 16) (segments num) \<noteq> []"
    using length_segments [of num] by auto
  have st: "list_all section_text (map (toString 16) (segments num))"
    using nz by (simp add: list_all_iff nonzero_text_def)
  have "replace_zero_run True (join '':'' (map (toString 16) (segments num)))
          = join '':'' (map (toString 16) (segments num))"
    using ne nz by (rule replace_zero_run_none)
  moreover have "replace_colons (join '':'' (map (toString 16) (segments num)))
          = join '':'' (map (toString 16) (segments num))"
    using ne st by (rule replace_colons_plain)
  ultimately show ?thesis by (simp add: toIPv6_segments)
qed

subsection \<open>Where the abbreviation is found\<close>

lemma find_abbreviation_text:
  "find_abbreviation s = Some (a, b) \<Longrightarrow> s = a @ ''::'' @ b"
proof (induction s arbitrary: a rule: find_abbreviation.induct)
  case 1
  then show ?case by simp
next
  case (2 c)
  then show ?case by simp
next
  case (3 c d t)
  show ?case
  proof (cases "c = CHR '':'' \<and> d = CHR '':''")
    case True
    with 3(2) show ?thesis by simp
  next
    case False
    with 3(2) obtain a' where a': "find_abbreviation (d # t) = Some (a', b)" and a: "a = c # a'"
      by (auto split: option.splits)
    from 3(1) [OF False a'] a show ?thesis by simp
  qed
qed

lemma find_abbreviation_other:
  assumes "c \<noteq> CHR '':''"
  shows "find_abbreviation (c # s) = map_option (\<lambda>(a, b). (c # a, b)) (find_abbreviation s)"
proof (cases s)
  case Nil
  then show ?thesis by simp
next
  case (Cons d t)
  then show ?thesis using assms by (simp split: option.splits)
qed

lemma find_abbreviation_colon:
  assumes "d \<noteq> CHR '':''"
  shows "find_abbreviation (CHR '':'' # d # t)
           = map_option (\<lambda>(a, b). (CHR '':'' # a, b)) (find_abbreviation (d # t))"
  using assms by (simp split: option.splits)

lemma find_abbreviation_digits:
  assumes "list_all (is_digit 16) h"
  shows "find_abbreviation (h @ s) = map_option (\<lambda>(a, b). (h @ a, b)) (find_abbreviation s)"
  using assms
proof (induction h)
  case Nil
  then show ?case by (simp add: option.map_ident split_def)
next
  case (Cons c h)
  from Cons.prems have "is_digit 16 c" by simp
  then have "c \<noteq> CHR '':''" by (rule hex_digit_not_colon)
  then have "find_abbreviation ((c # h) @ s)
               = map_option (\<lambda>(a, b). (c # a, b)) (find_abbreviation (h @ s))"
    by (simp add: find_abbreviation_other)
  then show ?case using Cons by (simp add: option.map_comp comp_def split_def)
qed

lemma find_abbreviation_sections:
  assumes "hs \<noteq> []" and "list_all section_text hs"
  shows "find_abbreviation (join '':'' hs @ s)
           = map_option (\<lambda>(a, b). (join '':'' hs @ a, b)) (find_abbreviation s)"
  using assms
proof (induction hs)
  case Nil
  then show ?case by simp
next
  case (Cons h hs)
  from Cons.prems have h: "list_all (is_digit 16) h" by (simp add: section_text_def)
  show ?case
  proof (cases "hs = []")
    case True
    then show ?thesis using h by (simp add: find_abbreviation_digits)
  next
    case False
    with Cons.prems have "join '':'' hs @ s \<noteq> [] \<and> hd (join '':'' hs @ s) \<noteq> CHR '':''"
      by (intro join_sections_hd) simp_all
    then obtain d t where dt: "join '':'' hs @ s = d # t" and d: "d \<noteq> CHR '':''"
      by (cases "join '':'' hs @ s") auto
    have "find_abbreviation (join '':'' (h # hs) @ s)
            = map_option (\<lambda>(a, b). (h @ a, b)) (find_abbreviation (CHR '':'' # join '':'' hs @ s))"
      using False h by (simp add: join_Cons find_abbreviation_digits)
    also have "find_abbreviation (CHR '':'' # join '':'' hs @ s)
            = map_option (\<lambda>(a, b). (CHR '':'' # a, b)) (find_abbreviation (join '':'' hs @ s))"
      unfolding dt using d by (rule find_abbreviation_colon)
    also have "find_abbreviation (join '':'' hs @ s)
            = map_option (\<lambda>(a, b). (join '':'' hs @ a, b)) (find_abbreviation s)"
      using Cons.IH False Cons.prems by simp
    finally show ?thesis
      using False by (simp add: join_Cons option.map_comp comp_def split_def)
  qed
qed

lemma find_abbreviation_plain:
  assumes "hs \<noteq> []" and "list_all section_text hs"
  shows "find_abbreviation (join '':'' hs) = None"
  using find_abbreviation_sections [OF assms, of "[]"] by simp

lemma find_abbreviation_abbreviated:
  assumes "list_all section_text pre"
  shows "find_abbreviation (join '':'' pre @ ''::'' @ b) = Some (join '':'' pre, b)"
proof (cases "pre = []")
  case True
  then show ?thesis by simp
next
  case False
  then show ?thesis
    using find_abbreviation_sections [OF False assms, of "''::'' @ b"] by simp
qed

lemma section_text_no_colon: "section_text h \<Longrightarrow> CHR '':'' \<notin> set h"
  using separators_no_digits(2) [of 16] by (auto simp: section_text_def list_all_iff)

lemma split_sections:
  assumes "hs \<noteq> []" and "list_all section_text hs"
  shows "split CHR '':'' (join '':'' hs) = hs"
  using assms(1)
proof (rule split_join)
  show "list_all (\<lambda>x. CHR '':'' \<notin> set x) hs"
    using assms(2) by (simp add: list_all_iff section_text_no_colon)
qed

lemma join_sections_not_Nil:
  assumes "hs \<noteq> []" and "list_all section_text hs"
  shows "join '':'' hs \<noteq> []"
  using join_sections_hd [OF assms, of "[]"] by simp

lemma hextets_join:
  assumes "list_all section_text hs"
  shows "hextets (join '':'' hs) = hs"
proof (cases "hs = []")
  case True
  then show ?thesis by (simp add: hextets_def)
next
  case False
  then show ?thesis
    using assms by (simp add: hextets_def join_sections_not_Nil split_sections)
qed

lemma isIPv6_abbreviated:
  assumes "list_all section_text pre" and "list_all section_text post"
    and "list_all hextet pre" and "list_all hextet post" and "length pre + length post \<le> 7"
  shows "isIPv6 (join '':'' pre @ ''::'' @ join '':'' post)"
proof -
  have "find_abbreviation (join '':'' pre @ ''::'' @ join '':'' post)
          = Some (join '':'' pre, join '':'' post)"
    using assms(1) by (rule find_abbreviation_abbreviated)
  then show ?thesis
    unfolding isIPv6_def using assms by (simp add: hextets_join)
qed

lemma isIPv6_plain:
  assumes "list_all section_text hs" and "list_all hextet hs" and "length hs = 8"
  shows "isIPv6 (join '':'' hs)"
proof -
  from assms(3) have "hs \<noteq> []" by auto
  then show ?thesis
    using assms by (simp add: isIPv6_def find_abbreviation_plain split_sections)
qed

subsection \<open>The fold of \<^verbatim>\<open>fromIPv6\<close>\<close>

lemma parseInt_digits:
  assumes "h \<noteq> []" and "list_all (is_digit 16) h"
  shows "parseInt h 16 = Num (int (digits_value 16 h))"
proof -
  have tw: "takeWhile (is_digit 16) h = h"
    using assms(2) by (simp add: takeWhile_eq_all_conv list_all_iff)
  show ?thesis unfolding parseInt_def Let_def tw using assms(1) by simp
qed

lemma parseInt_zero: "parseInt ''0'' 16 = Num 0"
  by (simp add: parseInt_def is_digit_def digit_value_def digits_value_def)

lemma section_value_empty: "section_value [] = 0"
  by (simp add: section_value_def digits_value_def)

lemma section_value_zero: "section_value ''0'' = 0"
  by (simp add: section_value_def digits_value_def digit_value_def)

lemma add_section_digits:
  assumes "list_all (is_digit 16) h"
  shows "add_section acc h = Inr (acc * 2 ^ 16 + section_value h)"
proof (cases "h = []")
  case True
  then show ?thesis
    by (simp add: add_section_def parseInt_zero BigInt_def section_value_empty push_bit_eq_mult)
next
  case False
  then show ?thesis
    using assms
    by (simp add: add_section_def parseInt_digits BigInt_def section_value_def push_bit_eq_mult)
qed

lemma reduce_from_sections:
  assumes "list_all short_hex hs"
  shows "reduce_from add_section acc hs
           = Inr (foldl (\<lambda>acc x. acc * 2 ^ 16 + x) acc (map section_value hs))"
  using assms
proof (induction hs arbitrary: acc)
  case Nil
  then show ?case by simp
next
  case (Cons h hs)
  then have "add_section acc h = Inr (acc * 2 ^ 16 + section_value h)"
    by (simp add: short_hex_def add_section_digits)
  then show ?case using Cons by simp
qed

lemma digits_value_bound:
  assumes "list_all (is_digit radix) h"
  shows "digits_value radix h < radix ^ length h"
  using assms
proof (induction h rule: rev_induct)
  case Nil
  then show ?case by (simp add: digits_value_def)
next
  case (snoc c h)
  from snoc.prems have "is_digit radix c" by simp
  then obtain d where d: "digit_value c = Some d" "d < radix" by (rule is_digit_obtain)
  from snoc have "digits_value radix h < radix ^ length h" by simp
  then have "Suc (digits_value radix h) \<le> radix ^ length h" by simp
  then have "Suc (digits_value radix h) * radix \<le> radix ^ length h * radix"
    by (rule mult_le_mono1)
  then have "digits_value radix h * radix + d < radix ^ length h * radix"
    using d(2) by simp
  then show ?case using d(1) by (simp add: digits_value_snoc mult.commute)
qed

lemma section_value_range:
  assumes "short_hex h"
  shows "0 \<le> section_value h" and "section_value h < 65536"
proof -
  show "0 \<le> section_value h" by (simp add: section_value_def)
  from assms have "digits_value 16 h < 16 ^ length h"
    by (simp add: short_hex_def digits_value_bound)
  also have "(16::nat) ^ length h \<le> 16 ^ 4"
    using assms by (intro power_increasing) (simp_all add: short_hex_def)
  finally show "section_value h < 65536" by (simp add: section_value_def)
qed

lemma foldl_segments_range:
  fixes acc :: int
  assumes "\<And>x. x \<in> set xs \<Longrightarrow> 0 \<le> x \<and> x < 65536" and "0 \<le> acc" and "acc < 2 ^ (16 * k)"
  shows "0 \<le> foldl (\<lambda>acc x. acc * 2 ^ 16 + x) acc xs
         \<and> foldl (\<lambda>acc x. acc * 2 ^ 16 + x) acc xs < 2 ^ (16 * (k + length xs))"
  using assms
proof (induction xs arbitrary: acc k)
  case Nil
  then show ?case by simp
next
  case (Cons x xs)
  have x: "0 \<le> x" "x < 65536" using Cons.prems(1) [of x] by simp_all
  have "acc + 1 \<le> 2 ^ (16 * k)" using Cons.prems(3) by simp
  then have "(acc + 1) * 2 ^ 16 \<le> 2 ^ (16 * k) * (2 ^ 16 :: int)"
    by (rule mult_right_mono) simp
  then have up: "acc * 2 ^ 16 + x < 2 ^ (16 * Suc k)"
    using x(2) by (simp add: algebra_simps power_add)
  have lo: "0 \<le> acc * 2 ^ 16 + x" using Cons.prems(2) x(1) by simp
  have "0 \<le> foldl (\<lambda>acc x. acc * 2 ^ 16 + x) (acc * 2 ^ 16 + x) xs
         \<and> foldl (\<lambda>acc x. acc * 2 ^ 16 + x) (acc * 2 ^ 16 + x) xs < 2 ^ (16 * (Suc k + length xs))"
    using Cons.prems(1) lo up by (intro Cons.IH) simp_all
  then show ?case by simp
qed

lemma combine_range:
  assumes "\<And>x. x \<in> set xs \<Longrightarrow> 0 \<le> x \<and> x < 65536" and "length xs = 8"
  shows "0 \<le> combine xs" and "combine xs < 2 ^ 128"
  using foldl_segments_range [of xs 0 0] assms by (simp_all add: combine_def)

subsection \<open>The expansion of the abbreviation\<close>

lemma indexOf_None: "y \<notin> set xs \<Longrightarrow> indexOf xs y = None"
  by (induction xs) auto

lemma indexOf_first: "y \<notin> set xs \<Longrightarrow> indexOf (xs @ y # zs) y = Some (length xs)"
  by (induction xs) auto

lemma hextet_not_Nil: "hextet h \<Longrightarrow> h \<noteq> []"
  by (auto simp: hextet_def)

lemma hextet_short_hex: "hextet h \<Longrightarrow> short_hex h"
  by (simp add: hextet_def short_hex_def)

lemma short_hex_simple: "short_hex ''0''" "short_hex []"
  by (simp_all add: short_hex_def is_digit_def digit_value_def)

lemma split_abbreviated:
  "split CHR '':'' (a @ ''::'' @ b) = split CHR '':'' a @ [[]] @ split CHR '':'' b"
proof -
  have "split CHR '':'' (a @ CHR '':'' # (CHR '':'' # b))
          = split CHR '':'' a @ split CHR '':'' (CHR '':'' # b)"
    by (rule split_append_sep)
  then show ?thesis by simp
qed

lemma split_text: "split CHR '':'' a = (if a = [] then [[]] else hextets a)"
  by (simp add: hextets_def)

text \<open>
  The sections of an accepted text with \<^verbatim>\<open>::\<close>, after the expansion: with text before the
  \<^verbatim>\<open>::\<close>, the empty section found is the one of the \<^verbatim>\<open>::\<close>; without, it is the empty
  section before it, and the one of the \<^verbatim>\<open>::\<close> stays.
\<close>

lemma expand_abbreviated:
  assumes "list_all hextet (hextets a @ hextets b)" and "length (hextets a @ hextets b) \<le> 7"
  defines "P \<equiv> split CHR '':'' a" and "Q \<equiv> split CHR '':'' b"
  defines "zs \<equiv> replicate (8 - length P - length Q) ''0''"
  shows "expand_sections (split CHR '':'' (a @ ''::'' @ b))
           = Inr (if a = [] then zs @ P @ Q else P @ zs @ Q)"
    and "length P + length Q \<le> 8"
    and "list_all short_hex P" and "list_all short_hex Q"
proof -
  have P: "P = (if a = [] then [[]] else hextets a)" and Q: "Q = (if b = [] then [[]] else hextets b)"
    by (simp_all add: P_def Q_def split_text)
  have ha: "list_all hextet (hextets a)" and hb: "list_all hextet (hextets b)"
    using assms(1) by simp_all
  show len: "length P + length Q \<le> 8" using assms(2) by (simp add: P Q)
  show "list_all short_hex P"
    using ha by (auto simp: P list_all_iff hextet_short_hex short_hex_simple)
  show "list_all short_hex Q"
    using hb by (auto simp: Q list_all_iff hextet_short_hex short_hex_simple)
  have sections: "split CHR '':'' (a @ ''::'' @ b) = P @ [] # Q"
    using split_abbreviated [of a b] by (simp add: P_def Q_def)
  have n: "8 - int (length (P @ [] # Q)) + 1 = int (8 - length P - length Q)"
    using len by simp
  show "expand_sections (split CHR '':'' (a @ ''::'' @ b))
           = Inr (if a = [] then zs @ P @ Q else P @ zs @ Q)"
  proof (cases "a = []")
    case True
    then have "P = [[]]" by (simp add: P)
    then have "indexOf (P @ [] # Q) [] = Some 0" by simp
    then have "expand_sections (P @ [] # Q) = Inr (splice1 (P @ [] # Q) 0 zs)"
      unfolding expand_sections_def Let_def n zs_def by simp
    then show ?thesis unfolding sections using True \<open>P = [[]]\<close> by (simp add: splice1_def)
  next
    case False
    then have "[] \<notin> set P" using ha by (auto simp: P list_all_iff dest: hextet_not_Nil)
    then have "indexOf (P @ [] # Q) [] = Some (length P)" by (rule indexOf_first)
    then have "expand_sections (P @ [] # Q) = Inr (splice1 (P @ [] # Q) (length P) zs)"
      unfolding expand_sections_def Let_def n zs_def by simp
    then show ?thesis unfolding sections using False by (simp add: splice1_def)
  qed
qed

lemma isIPv6_cases:
  assumes "isIPv6 s"
  obtains (plain) "find_abbreviation s = None" and "length (split CHR '':'' s) = 8"
      and "list_all hextet (split CHR '':'' s)"
  | (abbreviated) a b where "find_abbreviation s = Some (a, b)" and "s = a @ ''::'' @ b"
      and "list_all hextet (hextets a @ hextets b)" and "length (hextets a @ hextets b) \<le> 7"
proof (cases "find_abbreviation s")
  case None
  with assms plain show ?thesis by (simp add: isIPv6_def Let_def)
next
  case (Some ab)
  obtain a b where ab: "ab = (a, b)" by (cases ab)
  have "s = a @ ''::'' @ b" using Some ab by (intro find_abbreviation_text) simp
  with assms Some ab abbreviated show ?thesis by (simp add: isIPv6_def Let_def)
qed

text \<open>What \<^verbatim>\<open>fromIPv6\<close> does with an accepted text: eight sections, read as one value.\<close>

lemma fromIPv6_accepted:
  assumes "isIPv6 s"
  obtains secs where "expand_sections (split CHR '':'' s) = Inr secs" and "length secs = 8"
    and "list_all short_hex secs" and "fromIPv6 s = Inr (combine (map section_value secs))"
proof -
  note result = that
  have finish: thesis
    if "expand_sections (split CHR '':'' s) = Inr secs" and "length secs = 8"
      and "list_all short_hex secs" for secs
  proof -
    have "fromIPv6 s = Inr (combine (map section_value secs))"
      using assms that(1,3) by (simp add: fromIPv6_def reduce_from_sections combine_def)
    with that show thesis by (rule result)
  qed
  from assms show thesis
  proof (cases rule: isIPv6_cases)
    case plain
    from plain(3) have "[] \<notin> set (split CHR '':'' s)"
      by (auto simp: list_all_iff dest: hextet_not_Nil)
    then have "expand_sections (split CHR '':'' s) = Inr (split CHR '':'' s)"
      by (simp add: expand_sections_def indexOf_None)
    moreover have "list_all short_hex (split CHR '':'' s)"
      using plain(3) by (auto simp: list_all_iff hextet_short_hex)
    ultimately show ?thesis using plain(2) by (intro finish)
  next
    case (abbreviated a b)
    let ?P = "split CHR '':'' a" and ?Q = "split CHR '':'' b"
    let ?zs = "replicate (8 - length ?P - length ?Q) ''0''"
    let ?secs = "if a = [] then ?zs @ ?P @ ?Q else ?P @ ?zs @ ?Q"
    note e = expand_abbreviated [OF abbreviated(3,4)]
    have "expand_sections (split CHR '':'' s) = Inr ?secs"
      using e(1) abbreviated(2) by simp
    moreover have "length ?secs = 8" using e(2) by (cases "a = []") auto
    moreover have "list_all short_hex ?secs"
      using e(3,4) by (cases "a = []") (auto simp: list_all_iff short_hex_simple)
    ultimately show ?thesis by (rule finish)
  qed
qed

subsection \<open>Formatting, then parsing\<close>

lemma take_bit_split:
  "take_bit (m + n) (x :: int) = take_bit n (drop_bit m x) * 2 ^ m + take_bit m x"
  by (simp add: take_bit_eq_mod drop_bit_eq_div power_add zmod_zmult2_eq mult.commute)

lemma foldl_low_segments:
  "foldl (\<lambda>acc x. acc * 2 ^ 16 + x) acc
     (map (\<lambda>i. take_bit 16 (drop_bit (i * 16) v)) (rev [0..<n]))
   = acc * 2 ^ (16 * n) + take_bit (16 * n) (v :: int)"
proof (induction n arbitrary: acc)
  case 0
  then show ?case by simp
next
  case (Suc n)
  have "take_bit (16 * n + 16) v
          = take_bit 16 (drop_bit (16 * n) v) * 2 ^ (16 * n) + take_bit (16 * n) v"
    by (rule take_bit_split)
  then show ?case
    using Suc [of "acc * 2 ^ 16 + take_bit 16 (drop_bit (n * 16) v)"]
    by (simp add: algebra_simps power_add)
qed

lemma combine_segments: "combine (segments v) = take_bit 128 v"
proof -
  have "[7, 6, 5, 4, 3, 2, 1, 0] = rev [0..<8]" by (simp add: upt_rec)
  then have "segments v = map (\<lambda>i. take_bit 16 (drop_bit (i * 16) v)) (rev [0..<8])"
    by (simp only: segments_def and_FFFF)
  then show ?thesis
    using foldl_low_segments [of 0 v 8] by (simp add: combine_def)
qed

lemma section_value_hex:
  assumes "0 \<le> x" and "x < 65536"
  shows "section_value (toString 16 x) = x"
  using assms by (simp add: section_value_def toString_nonneg digits_value_digits_of)

lemma section_values_hex:
  assumes "\<And>x. x \<in> set xs \<Longrightarrow> 0 \<le> x \<and> x < 65536"
  shows "map section_value (map (toString 16) xs) = xs"
  using assms by (induction xs) (simp_all add: section_value_hex)

lemma section_values_zeros: "map section_value (replicate n ''0'') = replicate n 0"
  by (simp add: section_value_zero)

lemma fromIPv6_sections:
  assumes "isIPv6 s" and "expand_sections (split CHR '':'' s) = Inr secs"
    and "list_all short_hex secs"
  shows "fromIPv6 s = Inr (combine (map section_value secs))"
  using assms by (simp add: fromIPv6_def reduce_from_sections combine_def)

lemma toIPv6_accepted_and_read:
  "isIPv6 (toIPv6 v) \<and> fromIPv6 (toIPv6 v) = Inr (take_bit 128 v)"
proof (cases "0 \<in> set (segments v)")
  case False
  let ?hs = "map (toString 16) (segments v)"
  have range: "0 \<le> x \<and> x < 65536" if "x \<in> set (segments v)" for x
    using that segments_range [of x v] by simp
  have shape: "toIPv6 v = join '':'' ?hs" using False by (rule toIPv6_no_zero)
  have st: "list_all section_text ?hs"
    using range by (intro hex_texts(1)) auto
  have hx: "list_all hextet ?hs"
    using range by (intro hex_texts(2)) auto
  have ne: "?hs \<noteq> []" using length_segments [of v] by auto
  have valid: "isIPv6 (join '':'' ?hs)"
    using st hx by (rule isIPv6_plain) (simp add: length_segments)
  have sp: "split CHR '':'' (join '':'' ?hs) = ?hs" using ne st by (rule split_sections)
  have "[] \<notin> set ?hs"
  proof
    assume "[] \<in> set ?hs"
    with hx have "hextet []" unfolding list_all_iff by blast
    then show False by (simp add: hextet_def)
  qed
  then have ex: "expand_sections (split CHR '':'' (join '':'' ?hs)) = Inr ?hs"
    unfolding sp by (simp add: expand_sections_def indexOf_None)
  have "list_all short_hex ?hs" using hx by (auto simp: list_all_iff hextet_short_hex)
  with valid ex have "fromIPv6 (join '':'' ?hs) = Inr (combine (map section_value ?hs))"
    by (rule fromIPv6_sections)
  also have "map section_value ?hs = segments v" using range by (rule section_values_hex)
  finally show ?thesis using valid by (simp add: shape combine_segments)
next
  case True
  then obtain pre m post where seg: "segments v = pre @ replicate (Suc m) 0 @ post"
    and pre0: "0 \<notin> set pre" and post0: "post = [] \<or> hd post \<noteq> 0"
    by (rule first_zero_run)
  let ?pre = "map (toString 16) pre" and ?post = "map (toString 16) post"
  let ?a = "join '':'' ?pre" and ?b = "join '':'' ?post"
  have range: "0 \<le> x \<and> x < 65536" if "x \<in> set pre \<or> x \<in> set post" for x
    using that segments_range [of x v] seg by auto
  have len: "length pre + Suc m + length post = 8"
    using length_segments [of v] seg by simp
  have shape: "toIPv6 v = ?a @ ''::'' @ ?b" using seg pre0 post0 by (rule toIPv6_first_run)
  have st: "list_all section_text ?pre" "list_all section_text ?post"
    using range by (auto intro!: hex_texts(1))
  have hx: "list_all hextet ?pre" "list_all hextet ?post"
    using range by (auto intro!: hex_texts(2))
  have valid: "isIPv6 (?a @ ''::'' @ ?b)"
    using st hx len by (intro isIPv6_abbreviated) simp_all
  have ha: "hextets ?a = ?pre" and hb: "hextets ?b = ?post"
    using st by (simp_all add: hextets_join)
  have a: "?a = [] \<longleftrightarrow> pre = []" and b: "?b = [] \<longleftrightarrow> post = []"
    using st join_sections_not_Nil [of ?pre] join_sections_not_Nil [of ?post] by auto
  let ?P = "split CHR '':'' ?a" and ?Q = "split CHR '':'' ?b"
  let ?zs = "replicate (8 - length ?P - length ?Q) ''0''"
  let ?secs = "if ?a = [] then ?zs @ ?P @ ?Q else ?P @ ?zs @ ?Q"
  have hyp: "list_all hextet (hextets ?a @ hextets ?b)" "length (hextets ?a @ hextets ?b) \<le> 7"
    using hx len by (simp_all add: ha hb)
  note e = expand_abbreviated [OF hyp]
  have P: "?P = (if pre = [] then [[]] else ?pre)" and Q: "?Q = (if post = [] then [[]] else ?post)"
    by (simp_all add: split_text ha hb a b)
  have vpre: "map section_value ?pre = pre"
    by (rule section_values_hex) (simp add: range)
  have vpost: "map section_value ?post = post"
    by (rule section_values_hex) (simp add: range)
  have vP: "map section_value ?P = (if pre = [] then [0] else pre)"
    unfolding P using vpre by (simp add: section_value_empty del: map_map)
  have vQ: "map section_value ?Q = (if post = [] then [0] else post)"
    unfolding Q using vpost by (simp add: section_value_empty del: map_map)
  have lP: "length ?P = (if pre = [] then 1 else length pre)"
    and lQ: "length ?Q = (if post = [] then 1 else length post)"
    by (simp_all add: P Q)
  have vals: "map section_value ?secs = segments v"
  proof (cases "pre = []")
    case True
    note pre_empty = this
    show ?thesis
    proof (cases "post = []")
      case True
      with pre_empty len have "m = 7" by simp
      then show ?thesis
        using pre_empty True
        by (simp add: a seg vP vQ lP lQ section_value_zero section_value_empty
            numeral_eq_Suc del: map_map)
    next
      case False
      with pre_empty len have "7 - length post = m" by simp
      then show ?thesis
        using pre_empty False
        by (simp add: a seg vP vQ lP lQ section_value_zero section_value_empty
            replicate_append_same del: map_map)
    qed
  next
    case False
    note pre_some = this
    show ?thesis
    proof (cases "post = []")
      case True
      with len have "8 - length pre - Suc 0 = m" by simp
      then show ?thesis
        using pre_some True
        by (simp add: a seg vP vQ lP lQ section_value_zero section_value_empty
            replicate_append_same del: map_map)
    next
      case False
      with len have "8 - length pre - length post = Suc m" by simp
      then show ?thesis
        using pre_some False
        by (simp add: a seg vP vQ lP lQ section_value_zero section_value_empty del: map_map)
    qed
  qed
  have "list_all short_hex ?secs"
    using e(3,4) by (cases "?a = []") (auto simp: list_all_iff short_hex_simple)
  with valid e(1) have "fromIPv6 (?a @ ''::'' @ ?b) = Inr (combine (map section_value ?secs))"
    by (rule fromIPv6_sections)
  then show ?thesis using valid by (simp only: shape vals combine_segments simp_thms)
qed

subsection \<open>Evaluating the codec on given inputs\<close>

lemma replicate_numeral_unfold: "replicate (numeral k) x = x # replicate (pred_numeral k) x"
  by (simp add: numeral_eq_Suc)

lemmas isIPv6_eval = isIPv6_def hextets_def hextet_def is_digit_def digit_value_def

lemmas fromIPv6_eval = fromIPv6_def isIPv6_eval expand_sections_def splice1_def
  add_section_def parseInt_def BigInt_def digits_value_def replicate_numeral_unfold

lemmas toIPv6_eval = toIPv6_def toString_def digits_of.simps digit_char_def
  replace_zero_run.simps zero_run_here_def zero_then_def zero_run_rest.simps
  replace_colons.simps

subsection \<open>Every accepted text is read\<close>

lemma indexOf_Some: "indexOf xs y = Some k \<Longrightarrow> k < length xs"
  by (induction xs arbitrary: k) (auto split: if_splits option.splits)

lemma indexOf_member: "y \<in> set xs \<Longrightarrow> \<exists>k. indexOf xs y = Some k"
  by (induction xs) auto

lemma fromIPv6_value_range:
  assumes "isIPv6 s"
  obtains v where "fromIPv6 s = Inr v" and "0 \<le> v" and "v < 2 ^ 128"
proof -
  from assms obtain secs where secs: "length secs = 8" "list_all short_hex secs"
    and v: "fromIPv6 s = Inr (combine (map section_value secs))"
    by (rule fromIPv6_accepted)
  have r: "0 \<le> x \<and> x < 65536" if "x \<in> set (map section_value secs)" for x
    using that secs(2) section_value_range by (auto simp: list_all_iff)
  have l: "length (map section_value secs) = 8" using secs(1) by simp
  have lo: "0 \<le> combine (map section_value secs)" using r l by (rule combine_range(1))
  have hi: "combine (map section_value secs) < 2 ^ 128" using r l by (rule combine_range(2))
  from v lo hi show thesis by (rule that)
qed

section \<open>The claims about the IPv4 codec\<close>

lemma octet_bounds:
  assumes "octet p"
  shows "0 \<le> int (digits_value 10 p)" and "int (digits_value 10 p) < 256"
  using assms by (simp_all add: octet_def)

text \<open>
  Claim C1 (a result in the range from 0 to \<open>2 ^ 32 - 1\<close> for every accepted text) fails
  on the code: \<^verbatim>\<open><<\<close> and \<^verbatim>\<open>|\<close> give signed 32-bit results, so an accepted text whose first
  octet is 128 or more comes back negative. The code at \<^verbatim>\<open>255.255.255.255\<close>, which the claim
  puts at \<open>4294967295\<close>:
\<close>

theorem fromIPv4_negative_for_high_octet:
  "isIPv4 ''255.255.255.255'' \<and> fromIPv4 ''255.255.255.255'' = Inr (Num (- 1))"
  by (simp add: fromIPv4_def isIPv4_def octet_def is_digit_def digit_value_def
      digits_value_def Number_def js_or_def js_shl_def ToInt32_def)

text \<open>
  Claim C2: for every accepted text \<open>s\<close> in canonical form (no octet with a leading zero),
  \<^verbatim>\<open>fromIPv4\<close> succeeds and \<^verbatim>\<open>toIPv4\<close> of its result is \<open>s\<close> again.
\<close>

theorem roundtrip_IPv4:
  assumes "isIPv4 s" and "canonical_IPv4 s"
  shows "\<exists>w. fromIPv4 s = Inr w \<and> toIPv4 w = s"
proof -
  from assms(1) obtain p1 p2 p3 p4 where sp: "split CHR ''.'' s = [p1, p2, p3, p4]"
    and o: "octet p1" "octet p2" "octet p3" "octet p4"
    by (rule isIPv4_split)
  from assms(2) sp have c: "canonical_octet p1" "canonical_octet p2" "canonical_octet p3"
    "canonical_octet p4"
    by (simp_all add: canonical_IPv4_def)
  have reread: "toString 10 (int (digits_value 10 p)) = p" if "octet p" "canonical_octet p" for p
    using that by (simp add: toString_nat octet_def digits_of_digits_value)
  let ?w = "Num (sint (word_of_int
             (packed (int (digits_value 10 p1)) (int (digits_value 10 p2))
                     (int (digits_value 10 p3)) (int (digits_value 10 p4))) :: 32 word))"
  have "fromIPv4 s = Inr ?w" using assms(1) sp by (rule fromIPv4_accepted)
  moreover have "toIPv4 ?w = join ''.'' [p1, p2, p3, p4]"
    using o [THEN octet_value_range] by (simp add: toIPv4_packed reread o c)
  moreover have "join ''.'' [p1, p2, p3, p4] = s"
    using join_split [of "CHR ''.''" s] sp by simp
  ultimately show ?thesis by simp
qed

theorem roundtrip_IPv4_witness:
  "isIPv4 ''192.168.0.1'' \<and> canonical_IPv4 ''192.168.0.1'' \<and>
   (\<exists>w. fromIPv4 ''192.168.0.1'' = Inr w \<and> toIPv4 w = ''192.168.0.1'')"
proof -
  have v: "isIPv4 ''192.168.0.1''"
    by (simp add: isIPv4_def octet_def is_digit_def digit_value_def digits_value_def)
  have c: "canonical_IPv4 ''192.168.0.1''"
    by (simp add: canonical_IPv4_def canonical_octet_def)
  from v c roundtrip_IPv4 [OF v c] show ?thesis by simp
qed

text \<open>
  Claim C7: \<^verbatim>\<open>fromIPv4("1.2.3.4")\<close> is \<open>0x01020304 = 16909060\<close>, and for every accepted text
  the 32 bits of the result, read unsigned, are the four octets packed with the first
  textual octet in the most significant byte.
\<close>

theorem fromIPv4_big_endian:
  "fromIPv4 ''1.2.3.4'' = Inr (Num 16909060) \<and>
   (\<forall>str p1 p2 p3 p4.
      isIPv4 str \<longrightarrow> split CHR ''.'' str = [p1, p2, p3, p4] \<longrightarrow>
      (\<exists>v. fromIPv4 str = Inr (Num v) \<and>
           v mod 2 ^ 32 = packed (int (digits_value 10 p1)) (int (digits_value 10 p2))
                            (int (digits_value 10 p3)) (int (digits_value 10 p4))))"
proof (intro conjI allI impI)
  show "fromIPv4 ''1.2.3.4'' = Inr (Num 16909060)"
    by (simp add: fromIPv4_def isIPv4_def octet_def is_digit_def digit_value_def
        digits_value_def Number_def js_or_def js_shl_def ToInt32_def)
next
  fix str p1 p2 p3 p4
  assume v: "isIPv4 str" and sp: "split CHR ''.'' str = [p1, p2, p3, p4]"
  from v sp have o: "octet p1" "octet p2" "octet p3" "octet p4"
    by (simp_all add: isIPv4_def)
  let ?p = "packed (int (digits_value 10 p1)) (int (digits_value 10 p2))
                   (int (digits_value 10 p3)) (int (digits_value 10 p4))"
  have "0 \<le> ?p" and "?p < 2 ^ 32"
    by (rule packed_range
        [OF octet_bounds [OF o(1)] octet_bounds [OF o(2)] octet_bounds [OF o(3)]
          octet_bounds [OF o(4)]])+
  then have "sint (word_of_int ?p :: 32 word) mod 2 ^ 32 = ?p" by (rule sint_mod)
  with fromIPv4_accepted [OF v sp]
  show "\<exists>v. fromIPv4 str = Inr (Num v) \<and> v mod 2 ^ 32 = ?p" by simp
qed

theorem fromIPv4_big_endian_witness:
  "isIPv4 ''255.0.0.1'' \<and> split CHR ''.'' ''255.0.0.1'' = [''255'', ''0'', ''0'', ''1''] \<and>
   (\<exists>v. fromIPv4 ''255.0.0.1'' = Inr (Num v) \<and> v mod 2 ^ 32 = 4278190081)"
proof -
  have v: "isIPv4 ''255.0.0.1''"
    by (simp add: isIPv4_def octet_def is_digit_def digit_value_def digits_value_def)
  have sp: "split CHR ''.'' ''255.0.0.1'' = [''255'', ''0'', ''0'', ''1'']" by simp
  have "\<exists>w. fromIPv4 ''255.0.0.1'' = Inr (Num w) \<and>
          w mod 2 ^ 32 = packed (int (digits_value 10 ''255'')) (int (digits_value 10 ''0''))
                           (int (digits_value 10 ''0'')) (int (digits_value 10 ''1''))"
    using fromIPv4_big_endian v sp by blast
  moreover have "packed (int (digits_value 10 ''255'')) (int (digits_value 10 ''0''))
                   (int (digits_value 10 ''0'')) (int (digits_value 10 ''1'')) = 4278190081"
    by (simp add: packed_def digits_value_def digit_value_def)
  ultimately show ?thesis using v sp by simp
qed

text \<open>
  Claim C8: \<^verbatim>\<open>toIPv4\<close> has no failing branch (it is a total function into texts, and every
  text it returns is a well-formed dotted quad), \<^verbatim>\<open>toIPv4(0)\<close> is \<^verbatim>\<open>0.0.0.0\<close> and
  \<^verbatim>\<open>toIPv4(0xFFFFFFFF)\<close> is \<^verbatim>\<open>255.255.255.255\<close>.
\<close>

theorem toIPv4_total_boundaries:
  "toIPv4 (Num 0) = ''0.0.0.0'' \<and> toIPv4 (Num 4294967295) = ''255.255.255.255'' \<and>
   (\<forall>num. isIPv4 (toIPv4 num))"
proof (intro conjI allI)
  show "toIPv4 (Num 0) = ''0.0.0.0''"
    by (simp add: toIPv4_def js_and_def js_sar_def ToInt32_def number_toString_def
        toString_def digits_of_small digit_char_def)
  show "toIPv4 (Num 4294967295) = ''255.255.255.255''"
    by (simp add: toIPv4_def js_and_def js_sar_def ToInt32_def number_toString_def
        toString_def digits_of.simps digit_char_def)
  show "isIPv4 (toIPv4 num)" for num
    by (cases num) (simp_all add: toIPv4_NaN isIPv4_toIPv4_Num)
qed

text \<open>
  Claim C9: formatting, parsing and formatting again gives the first formatting; this holds
  for every integer \<open>v\<close>, so for every 32-bit unsigned one. (The parsed number \<open>w\<close> itself
  need not be \<open>v\<close>: it is the signed reading of the same 32 bits.)
\<close>

theorem toIPv4_idempotent:
  "\<exists>w. fromIPv4 (toIPv4 (Num v)) = Inr w \<and> toIPv4 w = toIPv4 (Num v)"
proof -
  let ?b = "\<lambda>k. take_bit 8 (drop_bit k v)"
  have "toIPv4 (Num (sint (word_of_int (packed (?b 24) (?b 16) (?b 8) (?b 0)) :: 32 word)))
          = join ''.'' (map (toString 10) [?b 24, ?b 16, ?b 8, ?b 0])"
    by (rule toIPv4_packed) (simp_all only: byte_range)
  also have "\<dots> = toIPv4 (Num v)" by (simp add: toIPv4_bytes)
  finally show ?thesis using fromIPv4_toIPv4 [of v] by simp
qed

section \<open>The claims about the IPv6 codec\<close>

text \<open>
  Claim C3: for every accepted text \<open>s\<close>, \<^verbatim>\<open>fromIPv6\<close> succeeds with a value \<open>v\<close>, and parsing
  the text that \<^verbatim>\<open>toIPv6\<close> writes for \<open>v\<close> gives \<open>v\<close> again, also where that text is not \<open>s\<close>.
\<close>

theorem roundtrip_IPv6_value:
  assumes "isIPv6 s"
  shows "\<exists>v. fromIPv6 s = Inr v \<and> fromIPv6 (toIPv6 v) = Inr v"
proof -
  from assms obtain v where v: "fromIPv6 s = Inr v" "0 \<le> v" "v < 2 ^ 128"
    by (rule fromIPv6_value_range)
  from v(2,3) have "take_bit 128 v = v" by (simp add: take_bit_int_eq_self)
  with toIPv6_accepted_and_read [of v] v(1) show ?thesis by simp
qed

theorem roundtrip_IPv6_value_witness:
  "isIPv6 ''2001:0db8:0000:0000:0000:0000:0000:0001'' \<and>
   toIPv6 42540766411282592856903984951653826561 = ''2001:db8::1'' \<and>
   (\<exists>v. fromIPv6 ''2001:0db8:0000:0000:0000:0000:0000:0001'' = Inr v \<and>
        fromIPv6 (toIPv6 v) = Inr v)"
proof -
  have a: "isIPv6 ''2001:0db8:0000:0000:0000:0000:0000:0001''"
    by (simp add: isIPv6_eval)
  have t: "toIPv6 42540766411282592856903984951653826561 = ''2001:db8::1''"
    by (simp add: toIPv6_eval)
  from a t roundtrip_IPv6_value [OF a] show ?thesis by blast
qed

text \<open>
  Claim C10: for every \<open>v\<close> from 0 to \<open>2 ^ 128 - 1\<close>, the text \<^verbatim>\<open>toIPv6\<close> writes is accepted (by
  the predicate as the spec describes it, also where a single zero segment was collapsed)
  and \<^verbatim>\<open>fromIPv6\<close> reads \<open>v\<close> back from it.
\<close>

theorem roundtrip_IPv6_full_range:
  assumes "0 \<le> v" and "v < 2 ^ 128"
  shows "isIPv6 (toIPv6 v) \<and> fromIPv6 (toIPv6 v) = Inr v"
proof -
  from assms have "take_bit 128 v = v" by (simp add: take_bit_int_eq_self)
  with toIPv6_accepted_and_read [of v] show ?thesis by simp
qed

theorem roundtrip_IPv6_full_range_witness:
  "(0::int) \<le> 5192296860952734609117897189359623 \<and>
   (5192296860952734609117897189359623::int) < 2 ^ 128 \<and>
   toIPv6 5192296860952734609117897189359623 = ''1::2:3:4:5:6:7'' \<and>
   isIPv6 (toIPv6 5192296860952734609117897189359623) \<and>
   fromIPv6 (toIPv6 5192296860952734609117897189359623) = Inr 5192296860952734609117897189359623"
proof -
  have lo: "(0::int) \<le> 5192296860952734609117897189359623" by simp
  have hi: "(5192296860952734609117897189359623::int) < 2 ^ 128" by simp
  have t: "toIPv6 5192296860952734609117897189359623 = ''1::2:3:4:5:6:7''"
    by (simp add: toIPv6_eval)
  from lo hi t roundtrip_IPv6_full_range [OF lo hi] show ?thesis by blast
qed

text \<open>
  Claim C4: in an accepted text with \<^verbatim>\<open>::\<close>, \<^verbatim>\<open>fromIPv6\<close> finds an empty section and puts 8
  minus the number of the other sections zero sections in its place, so that eight sections
  result, also for a leading and a trailing \<^verbatim>\<open>::\<close> (where the further empty section of
  the split counts among the others and reads as zero); \<^verbatim>\<open>::\<close> is 0, \<^verbatim>\<open>::1\<close> is 1 and
  \<^verbatim>\<open>1::\<close> is \<open>2 ^ 112\<close>.
\<close>

theorem fromIPv6_expands_abbreviation:
  "fromIPv6 ''::'' = Inr 0 \<and> fromIPv6 ''::1'' = Inr 1 \<and> fromIPv6 ''1::'' = Inr (2 ^ 112) \<and>
   (\<forall>s a b. isIPv6 s \<longrightarrow> find_abbreviation s = Some (a, b) \<longrightarrow>
      (\<exists>k secs. indexOf (split CHR '':'' s) [] = Some k \<and>
         secs = splice1 (split CHR '':'' s) k
                  (replicate (8 - (length (split CHR '':'' s) - 1)) ''0'') \<and>
         expand_sections (split CHR '':'' s) = Inr secs \<and> length secs = 8))"
proof (intro conjI allI impI)
  show "fromIPv6 ''::'' = Inr 0" by (simp add: fromIPv6_eval)
  show "fromIPv6 ''::1'' = Inr 1" by (simp add: fromIPv6_eval)
  show "fromIPv6 ''1::'' = Inr (2 ^ 112)" by (simp add: fromIPv6_eval)
next
  fix s a b
  assume valid: "isIPv6 s" and found: "find_abbreviation s = Some (a, b)"
  let ?sections = "split CHR '':'' s"
  from valid obtain secs where secs: "expand_sections ?sections = Inr secs" "length secs = 8"
    by (rule fromIPv6_accepted)
  from found have "s = a @ ''::'' @ b" by (rule find_abbreviation_text)
  then have "?sections = split CHR '':'' a @ [] # split CHR '':'' b"
    using split_abbreviated [of a b] by simp
  then have "[] \<in> set ?sections" by simp
  then obtain k where k: "indexOf ?sections [] = Some k" using indexOf_member by fastforce
  then have less: "k < length ?sections" by (rule indexOf_Some)
  let ?n = "8 - int (length ?sections) + 1"
  have e: "expand_sections ?sections
             = (if ?n < 0 then Inl RangeError
                else Inr (splice1 ?sections k (replicate (nat ?n) ''0'')))"
    using k by (simp add: expand_sections_def Let_def)
  with secs(1) have n: "\<not> ?n < 0" by (auto split: if_splits)
  then have "nat ?n = 8 - (length ?sections - 1)" using less by simp
  with e n secs k
  show "\<exists>k secs. indexOf ?sections [] = Some k \<and>
          secs = splice1 ?sections k (replicate (8 - (length ?sections - 1)) ''0'') \<and>
          expand_sections ?sections = Inr secs \<and> length secs = 8"
    by simp
qed

theorem fromIPv6_expands_abbreviation_witness:
  "isIPv6 ''2001:db8::1'' \<and> find_abbreviation ''2001:db8::1'' = Some (''2001:db8'', ''1'') \<and>
   (\<exists>k secs. indexOf (split CHR '':'' ''2001:db8::1'') [] = Some k \<and>
      secs = splice1 (split CHR '':'' ''2001:db8::1'') k
               (replicate (8 - (length (split CHR '':'' ''2001:db8::1'') - 1)) ''0'') \<and>
      expand_sections (split CHR '':'' ''2001:db8::1'') = Inr secs \<and> length secs = 8)"
proof -
  have v: "isIPv6 ''2001:db8::1''" by (simp add: isIPv6_eval)
  have f: "find_abbreviation ''2001:db8::1'' = Some (''2001:db8'', ''1'')" by simp
  from fromIPv6_expands_abbreviation v f
  have "\<exists>k secs. indexOf (split CHR '':'' ''2001:db8::1'') [] = Some k \<and>
      secs = splice1 (split CHR '':'' ''2001:db8::1'') k
               (replicate (8 - (length (split CHR '':'' ''2001:db8::1'') - 1)) ''0'') \<and>
      expand_sections (split CHR '':'' ''2001:db8::1'') = Inr secs \<and> length secs = 8"
    by blast
  with v f show ?thesis by (intro conjI)
qed

text \<open>
  Claim C5: \<^verbatim>\<open>toIPv6\<close> collapses the first run of one or more zero segments into \<^verbatim>\<open>::\<close>,
  whatever follows it: where the segments are \<open>pre\<close> without a zero, then \<open>Suc m\<close> zeros,
  then \<open>post\<close> not starting with a zero, the text is the segments of \<open>pre\<close>, \<^verbatim>\<open>::\<close>, and
  the segments of \<open>post\<close>, later zero runs written out. So a shorter run before a longer
  one is the one collapsed, as for the segments \<^verbatim>\<open>1:0:2:0:0:0:3:4\<close>.
\<close>

theorem toIPv6_collapses_first_zero_run:
  "toIPv6 0x00010000000200000000000000030004 = ''1::2:0:0:0:3:4'' \<and>
   (\<forall>num pre m post.
      segments num = pre @ replicate (Suc m) 0 @ post \<longrightarrow> 0 \<notin> set pre \<longrightarrow>
      (post = [] \<or> hd post \<noteq> 0) \<longrightarrow>
      toIPv6 num
        = join '':'' (map (toString 16) pre) @ ''::'' @ join '':'' (map (toString 16) post))"
proof (intro conjI allI impI)
  show "toIPv6 0x00010000000200000000000000030004 = ''1::2:0:0:0:3:4''"
    by code_simp
next
  fix num pre m post
  assume "segments num = pre @ replicate (Suc m) 0 @ post" and "0 \<notin> set pre"
    and "post = [] \<or> hd post \<noteq> 0"
  then show "toIPv6 num
        = join '':'' (map (toString 16) pre) @ ''::'' @ join '':'' (map (toString 16) post)"
    by (rule toIPv6_first_run)
qed

theorem toIPv6_collapses_first_zero_run_witness:
  "segments 0x00010000000200000000000000030004 = [1] @ replicate (Suc 0) 0 @ [2, 0, 0, 0, 3, 4] \<and>
   (0::int) \<notin> set [1] \<and> hd [2, 0, 0, 0, 3, 4 :: int] \<noteq> 0 \<and>
   toIPv6 0x00010000000200000000000000030004
     = join '':'' (map (toString 16) [1]) @ ''::'' @ join '':'' (map (toString 16) [2, 0, 0, 0, 3, 4])"
proof -
  have s: "segments 0x00010000000200000000000000030004
             = [1] @ replicate (Suc 0) 0 @ [2, 0, 0, 0, 3, 4]"
    by (simp add: segments_def)
  have p: "(0::int) \<notin> set [1]" by simp
  have q: "[2, 0, 0, 0, 3, 4 :: int] = [] \<or> hd [2, 0, 0, 0, 3, 4 :: int] \<noteq> 0" by simp
  from toIPv6_collapses_first_zero_run s p q
  have "toIPv6 0x00010000000200000000000000030004
          = join '':'' (map (toString 16) [1]) @ ''::''
              @ join '':'' (map (toString 16) [2, 0, 0, 0, 3, 4])"
    by blast
  with s show ?thesis by simp
qed

section \<open>The claims about errors\<close>

text \<open>
  Claim C6, as the code has it: \<^verbatim>\<open>fromIPv4\<close> and \<^verbatim>\<open>fromIPv6\<close> throw one kind of error, an
  \<^verbatim>\<open>Error\<close> whose message names the family, exactly when the validity predicate rejects the
  input, and return a value exactly when it accepts; the result is the error or the value,
  never both. \<^verbatim>\<open>toIPv4\<close> and \<^verbatim>\<open>toIPv6\<close> have no failing branch, and what they return is
  always a well-formed text.
\<close>

theorem parse_errors_and_totality:
  "(fromIPv4 s = Inl (Error ''str should be a valid IPv4 address.'') \<longleftrightarrow> \<not> isIPv4 s) \<and>
   ((\<exists>v. fromIPv4 s = Inr (Num v)) \<longleftrightarrow> isIPv4 s) \<and>
   (fromIPv6 t = Inl (Error ''str should be a valid IPv6 address.'') \<longleftrightarrow> \<not> isIPv6 t) \<and>
   ((\<exists>v. fromIPv6 t = Inr v) \<longleftrightarrow> isIPv6 t) \<and>
   isIPv4 (toIPv4 num) \<and> isIPv6 (toIPv6 n)"
proof -
  have r4: "fromIPv4 s = Inl (Error ''str should be a valid IPv4 address.'')" if "\<not> isIPv4 s"
    using that by (simp add: fromIPv4_def)
  have a4: "\<exists>v. fromIPv4 s = Inr (Num v)" if "isIPv4 s"
  proof -
    from that obtain p1 p2 p3 p4 where "split CHR ''.'' s = [p1, p2, p3, p4]"
      by (rule isIPv4_split)
    with that show ?thesis by (simp add: fromIPv4_accepted)
  qed
  have r6: "fromIPv6 t = Inl (Error ''str should be a valid IPv6 address.'')" if "\<not> isIPv6 t"
    using that by (simp add: fromIPv6_def)
  have a6: "\<exists>v. fromIPv6 t = Inr v" if "isIPv6 t"
    using that by (rule fromIPv6_value_range) blast
  have t4: "isIPv4 (toIPv4 num)"
    by (cases num) (simp_all add: toIPv4_NaN isIPv4_toIPv4_Num)
  have t6: "isIPv6 (toIPv6 n)" using toIPv6_accepted_and_read [of n] by simp
  from r4 a4 have "fromIPv4 s = Inl (Error ''str should be a valid IPv4 address.'') \<longleftrightarrow> \<not> isIPv4 s"
    by (cases "isIPv4 s") auto
  moreover from r4 a4 have "(\<exists>v. fromIPv4 s = Inr (Num v)) \<longleftrightarrow> isIPv4 s"
    by (cases "isIPv4 s") auto
  moreover from r6 a6 have "fromIPv6 t = Inl (Error ''str should be a valid IPv6 address.'') \<longleftrightarrow> \<not> isIPv6 t"
    by (cases "isIPv6 t") auto
  moreover from r6 a6 have "(\<exists>v. fromIPv6 t = Inr v) \<longleftrightarrow> isIPv6 t"
    by (cases "isIPv6 t") auto
  ultimately show ?thesis using t4 t6 by (intro conjI)
qed

theorem parse_errors_and_totality_witness:
  "\<not> isIPv4 ''999.1.1.1'' \<and>
   fromIPv4 ''999.1.1.1'' = Inl (Error ''str should be a valid IPv4 address.'') \<and>
   isIPv4 ''1.2.3.4'' \<and> (\<exists>v. fromIPv4 ''1.2.3.4'' = Inr (Num v)) \<and>
   \<not> isIPv6 ''not-an-ip'' \<and>
   fromIPv6 ''not-an-ip'' = Inl (Error ''str should be a valid IPv6 address.'') \<and>
   isIPv6 ''::1'' \<and> (\<exists>v. fromIPv6 ''::1'' = Inr v)"
proof -
  have n4: "\<not> isIPv4 ''999.1.1.1''"
    by (simp add: isIPv4_def octet_def is_digit_def digit_value_def digits_value_def)
  have y4: "isIPv4 ''1.2.3.4''"
    by (simp add: isIPv4_def octet_def is_digit_def digit_value_def digits_value_def)
  have n6: "\<not> isIPv6 ''not-an-ip''" by (simp add: isIPv6_eval)
  have y6: "isIPv6 ''::1''" by (simp add: isIPv6_eval)
  from n4 n6 parse_errors_and_totality [of "''999.1.1.1''" "''not-an-ip''"]
  have "fromIPv4 ''999.1.1.1'' = Inl (Error ''str should be a valid IPv4 address.'')"
    and "fromIPv6 ''not-an-ip'' = Inl (Error ''str should be a valid IPv6 address.'')"
    by blast+
  moreover from y4 y6 parse_errors_and_totality [of "''1.2.3.4''" "''::1''"]
  have "\<exists>v. fromIPv4 ''1.2.3.4'' = Inr (Num v)" and "\<exists>v. fromIPv6 ''::1'' = Inr v"
    by blast+
  ultimately show ?thesis using n4 y4 n6 y6 by (intro conjI)
qed

text \<open>
  The claim as the spec words it has the error name the input as well. The error the code
  throws is fixed by the family alone: two different rejected inputs get the same error.
\<close>

theorem invalid_address_error_omits_input:
  "\<not> isIPv4 ''999.1.1.1'' \<and> \<not> isIPv4 ''not-an-ip'' \<and> ''999.1.1.1'' \<noteq> ''not-an-ip'' \<and>
   fromIPv4 ''999.1.1.1'' = Inl (Error ''str should be a valid IPv4 address.'') \<and>
   fromIPv4 ''not-an-ip'' = Inl (Error ''str should be a valid IPv4 address.'') \<and>
   \<not> isIPv6 ''1:2'' \<and> \<not> isIPv6 ''not-an-ip'' \<and>
   fromIPv6 ''1:2'' = Inl (Error ''str should be a valid IPv6 address.'') \<and>
   fromIPv6 ''not-an-ip'' = Inl (Error ''str should be a valid IPv6 address.'')"
  by (simp add: fromIPv4_def fromIPv6_def isIPv6_eval isIPv4_def octet_def digits_value_def)

end
